theory Spec2Isabelle
  imports Complex_Main "HOL-Library.DAList"
begin

section \<open>Incremental synchronisation engine: data model\<close>

text \<open>
  The development embeds the synchronisation engine of the extension: the mode selector
  (\<open>shouldForceFullInventory\<close>, \<open>getResumeOffset\<close>), the merge of the stored state with the
  index snapshot (\<open>readIndex\<close>, \<open>mergeKnownState\<close>), the listing loop, the item
  classification, the body fetches and the removal pass of the content script's
  \<open>runSync\<close>, and the message handlers of the service worker's \<open>runSync\<close>.

  JavaScript objects used as dictionaries are association lists with unique keys
  (\<open>('k, 'v) alist\<close>); time stamps in seconds are rational numbers (the code only
  compares them and takes maxima); \<open>Date.now()\<close> and \<open>Date.parse\<close> work on integer
  milliseconds. Builtins and collaborators of the engine (the number and date parsers, the
  clock, the transport, the file system) are the fields of an environment record.
  The widget, the status texts and the progress percentages are not part of the model.
\<close>

datatype jsval = JNum rat | JStr string | JOther

type_synonym 'v obj = "(string, 'v) alist"

definition keys :: "'v obj \<Rightarrow> string list" where
  "keys m = map fst (DAList.impl_of m)"

definition vals :: "'v obj \<Rightarrow> 'v list" where
  "vals m = map snd (DAList.impl_of m)"

definition has :: "'v obj \<Rightarrow> string \<Rightarrow> bool" where
  "has m k = (case DAList.lookup m k of None \<Rightarrow> False | Some _ \<Rightarrow> True)"

text \<open>\<open>m[k] || 0\<close> and \<open>Number.isFinite(m[k]) ? m[k] : 0\<close> on an object of numbers.\<close>

definition numOr0 :: "rat obj \<Rightarrow> string \<Rightarrow> rat" where
  "numOr0 m k = (case DAList.lookup m k of None \<Rightarrow> 0 | Some v \<Rightarrow> v)"

text \<open>\<open>a || b\<close> on numbers: zero is falsy.\<close>

definition orElse :: "rat \<Rightarrow> rat \<Rightarrow> rat" where
  "orElse a b = (if a = 0 then b else a)"

record item =
  item_id :: string
  item_title :: string
  item_update_time :: jsval
  item_create_time :: jsval

record conversation =
  conv_id :: string
  conv_title :: string
  conv_create_time :: jsval
  conv_update_time :: jsval

record rawdata =
  d_items :: "item list"
  d_total :: "nat option"
  d_has_more :: "bool option"

record meta =
  m_id :: string
  m_title :: string
  m_create_time :: rat
  m_update_time :: rat

record options =
  includeMarkdown :: bool
  includeJson :: bool
  deleteRemoved :: bool

record cursor =
  c_offset :: nat
  c_limit :: "nat option"
  c_updatedAt :: string

datatype artifact = JsonFile string | MdFile string

datatype folderAccess = FolderOk | NoFolder | NoPermission

datatype persistOutcome = SavedFull | SavedSlim | SaveFailed

record env =
  parseFloat :: "string \<Rightarrow> rat option"
  dateParse :: "string \<Rightarrow> int option"
  dateNow :: int
  nowIso :: string
  folder :: folderAccess
  tokenError :: "string option"
  fetchJson :: "nat \<Rightarrow> nat \<Rightarrow> rawdata option"
  fetchConversation :: "string \<Rightarrow> string + conversation"
  writeFails :: "artifact \<Rightarrow> bool"
  deleteFails :: "artifact \<Rightarrow> bool"
  indexWriteFails :: bool
  persist :: persistOutcome

definition MAX_PARTIAL_AGE_MS :: int where
  "MAX_PARTIAL_AGE_MS = 24 * 60 * 60 * 1000"

definition toEpochSeconds :: "env \<Rightarrow> jsval \<Rightarrow> rat" where
  "toEpochSeconds e v =
     (case v of
        JNum r \<Rightarrow> r
      | JStr s \<Rightarrow> (case parseFloat e s of Some r \<Rightarrow> r | None \<Rightarrow> 0)
      | JOther \<Rightarrow> 0)"

definition getMaxKnownUpdateTime :: "rat obj \<Rightarrow> rat" where
  "getMaxKnownUpdateTime knownConversations =
     foldl (\<lambda>maxTime v. if v > maxTime then v else maxTime) 0 (vals knownConversations)"

definition shouldForceFullInventory :: "env \<Rightarrow> options \<Rightarrow> rat obj \<Rightarrow> string option \<Rightarrow> bool" where
  "shouldForceFullInventory e opts knownConversations lastFullInventoryAt =
     (if keys knownConversations = [] then True
      else if deleteRemoved opts then True
      else case lastFullInventoryAt of
             None \<Rightarrow> True
           | Some s \<Rightarrow>
               if s = [] then True
               else case dateParse e s of
                      None \<Rightarrow> True
                    | Some lastFull \<Rightarrow> dateNow e - lastFull > MAX_PARTIAL_AGE_MS)"

definition getResumeOffset :: "env \<Rightarrow> cursor option \<Rightarrow> nat" where
  "getResumeOffset e inventoryCursor =
     (case inventoryCursor of
        None \<Rightarrow> 0
      | Some c \<Rightarrow>
          if c_updatedAt c = [] then c_offset c
          else case dateParse e (c_updatedAt c) of
                 None \<Rightarrow> c_offset c
               | Some updatedAt \<Rightarrow>
                   if dateNow e - updatedAt > MAX_PARTIAL_AGE_MS then 0 else c_offset c)"

text \<open>The choice of the start offset in the content script's \<open>runSync\<close>.\<close>

definition resumeOffsetFor :: "env \<Rightarrow> bool \<Rightarrow> cursor option \<Rightarrow> nat" where
  "resumeOffsetFor e forceFullInventory inventoryCursor =
     (if forceFullInventory then getResumeOffset e inventoryCursor else 0)"

text \<open>
  The claim's reading of the staleness window: a cursor is older than the window when its
  time stamp parses and lies more than 24 hours (in milliseconds) before the clock.
\<close>

definition cursorOlderThanWindow :: "env \<Rightarrow> cursor \<Rightarrow> bool" where
  "cursorOlderThanWindow e c =
     (case dateParse e (c_updatedAt c) of
        None \<Rightarrow> False
      | Some t \<Rightarrow> c_updatedAt c \<noteq> [] \<and> dateNow e - t > 86400000)"

subsection \<open>The index snapshot and its merge into the known state\<close>

text \<open>
  \<open>index.json\<close> holds the values of the metadata map as \<open>writeIndex\<close> serialised them;
  \<open>None\<close> is a file that is missing or does not parse.
\<close>

definition readIndex :: "meta list option \<Rightarrow> (rat obj \<times> meta obj) option" where
  "readIndex file =
     (case file of
        None \<Rightarrow> None
      | Some entries \<Rightarrow>
          Some (foldl (\<lambda>(conversations, metas) entry.
                         if m_id entry = [] then (conversations, metas)
                         else (DAList.update (m_id entry) (m_update_time entry) conversations,
                               DAList.update (m_id entry) entry metas))
                  (DAList.empty, DAList.empty) entries))"

definition mergeConversation :: "rat obj \<Rightarrow> string \<times> rat \<Rightarrow> rat obj" where
  "mergeConversation mergedConversations p =
     (case p of (cid, updateTime) \<Rightarrow>
        DAList.update cid (max (numOr0 mergedConversations cid) updateTime) mergedConversations)"

definition mergeMeta :: "meta obj \<Rightarrow> string \<times> meta \<Rightarrow> meta obj" where
  "mergeMeta mergedMeta p =
     (case p of (cid, m) \<Rightarrow>
        if cid = [] then mergedMeta
        else case DAList.lookup mergedMeta cid of
               None \<Rightarrow> DAList.update cid m mergedMeta
             | Some current \<Rightarrow>
                 let currentTime = m_update_time current; nextTime = m_update_time m
                 in if nextTime \<ge> currentTime
                    then DAList.update cid (m\<lparr>m_update_time := max currentTime nextTime\<rparr>) mergedMeta
                    else mergedMeta)"

definition mergeKnownState ::
  "rat obj \<Rightarrow> meta obj \<Rightarrow> (rat obj \<times> meta obj) option \<Rightarrow> rat obj \<times> meta obj" where
  "mergeKnownState knownConversations knownMeta indexState =
     (case indexState of
        None \<Rightarrow> (knownConversations, knownMeta)
      | Some (indexConversations, indexMeta) \<Rightarrow>
          (foldl mergeConversation knownConversations (DAList.impl_of indexConversations),
           foldl mergeMeta knownMeta (DAList.impl_of indexMeta)))"

text \<open>The first statements of the \<open>try\<close> block of the content script's \<open>runSync\<close>.\<close>

definition initialKnown ::
  "rat obj \<Rightarrow> meta obj \<Rightarrow> meta list option \<Rightarrow> rat obj \<times> meta obj" where
  "initialKnown knownConversations knownMeta file =
     (case readIndex file of
        None \<Rightarrow> (knownConversations, knownMeta)
      | Some indexState \<Rightarrow> mergeKnownState knownConversations knownMeta (Some indexState))"

subsection \<open>The persisted sync state and the service worker's message handlers\<close>

datatype runStatus = StUpdated | StUnchanged | StError

record runRecord =
  r_status :: runStatus
  r_update_time :: rat
  r_at :: string
  r_error :: "string option"

record syncState =
  conversations :: "rat obj"
  ss_meta :: "meta obj"
  lastRun :: "runRecord obj"
  lastFullInventoryAt :: "string option"
  inventoryCursor :: "cursor option"
  inventoryInProgress :: bool

text \<open>
  The messages of the port between the content script and the service worker. The
  update times of the conversation messages are numbers (the content script sends results
  of \<open>toEpochSeconds\<close> and \<open>Math.max\<close>); the counts of a progress message only feed the
  status display and are left out, its optional cursor \<open>(offset, limit)\<close> is kept.
\<close>

datatype msg =
    SyncProgress "(nat \<times> nat) option"
  | ConversationMsg string string rat rat
  | ConversationSkip string string rat rat
  | ConversationError string string
  | SyncMode bool nat nat
  | SyncRequiresFolder
  | SyncPermissionRequired
  | SyncComplete bool nat nat nat
  | SyncError string

datatype outcome = Running | Resolved | Rejected string

record bgRun =
  nextState :: syncState
  bg_currentIds :: "string list"
  fullInventoryMode :: bool
  bg_outcome :: outcome

text \<open>\<open>Set.prototype.add\<close>: insertion order, no duplicates.\<close>

definition setAdd :: "string \<Rightarrow> string list \<Rightarrow> string list" where
  "setAdd x xs = (if x \<in> set xs then xs else xs @ [x])"

definition limitOrNull :: "nat \<Rightarrow> nat option" where
  "limitOrNull l = (if l = 0 then None else Some l)"

definition storeConversation :: "env \<Rightarrow> runStatus \<Rightarrow> string \<Rightarrow> string \<Rightarrow> rat \<Rightarrow> rat \<Rightarrow> bgRun \<Rightarrow> bgRun" where
  "storeConversation e st cid title create_time update_time run =
     (let ns = nextState run;
          existingTime = numOr0 (conversations ns) cid;
          messageTime = update_time;
          nextTime = max existingTime messageTime
      in run\<lparr>bg_currentIds := setAdd cid (bg_currentIds run),
              nextState := ns\<lparr>
                conversations := DAList.update cid nextTime (conversations ns),
                ss_meta := DAList.update cid
                   \<lparr>m_id = cid, m_title = title, m_create_time = create_time,
                    m_update_time = nextTime\<rparr> (ss_meta ns),
                lastRun := DAList.update cid
                   \<lparr>r_status = st, r_update_time = nextTime, r_at = nowIso e,
                    r_error = None\<rparr> (lastRun ns)\<rparr>\<rparr>)"

definition pruneTo :: "string list \<Rightarrow> 'v obj \<Rightarrow> 'v obj" where
  "pruneTo ids m =
     foldl (\<lambda>pruned cid. case DAList.lookup m cid of
                             None \<Rightarrow> pruned
                           | Some v \<Rightarrow> DAList.update cid v pruned) DAList.empty ids"

fun onMessage :: "env \<Rightarrow> msg \<Rightarrow> bgRun \<Rightarrow> bgRun" where
  "onMessage e (SyncProgress cur) run =
     (case cur of
        None \<Rightarrow> run
      | Some (offset, limit) \<Rightarrow>
          if fullInventoryMode run
          then run\<lparr>nextState := (nextState run)\<lparr>
                 inventoryCursor := Some \<lparr>c_offset = offset, c_limit = limitOrNull limit,
                                          c_updatedAt = nowIso e\<rparr>,
                 inventoryInProgress := True\<rparr>\<rparr>
          else run)"
| "onMessage e (ConversationMsg cid title create_time update_time) run =
     storeConversation e StUpdated cid title create_time update_time run"
| "onMessage e (ConversationSkip cid title create_time update_time) run =
     storeConversation e StUnchanged cid title create_time update_time run"
| "onMessage e (ConversationError cid err) run =
     (if cid \<noteq> []
      then run\<lparr>bg_currentIds := setAdd cid (bg_currentIds run),
               nextState := (nextState run)\<lparr>
                 lastRun := DAList.update cid
                   \<lparr>r_status = StError,
                    r_update_time = numOr0 (conversations (nextState run)) cid,
                    r_at = nowIso e,
                    r_error = Some (if err = [] then ''Unknown error'' else err)\<rparr>
                   (lastRun (nextState run))\<rparr>\<rparr>
      else run)"
| "onMessage e (SyncMode fullInventory resumeOffset limit) run =
     (if fullInventory
      then run\<lparr>fullInventoryMode := True,
               nextState := (nextState run)\<lparr>
                 inventoryCursor := Some \<lparr>c_offset = resumeOffset, c_limit = limitOrNull limit,
                                          c_updatedAt = nowIso e\<rparr>,
                 inventoryInProgress := True\<rparr>\<rparr>
      else run\<lparr>fullInventoryMode := False,
               nextState := (nextState run)\<lparr>inventoryCursor := None,
                                              inventoryInProgress := False\<rparr>\<rparr>)"
| "onMessage e SyncRequiresFolder run =
     run\<lparr>bg_outcome := Rejected ''Select a sync folder in the ChatGPT tab.''\<rparr>"
| "onMessage e SyncPermissionRequired run =
     run\<lparr>bg_outcome := Rejected ''Folder permission required. Re-grant access in the ChatGPT tab.''\<rparr>"
| "onMessage e (SyncComplete fullInventory updated skipped errors) run =
     (let ns = nextState run in
      if fullInventory
      then run\<lparr>bg_outcome := Resolved,
               nextState := ns\<lparr>
                 conversations := pruneTo (bg_currentIds run) (conversations ns),
                 ss_meta := pruneTo (bg_currentIds run) (ss_meta ns),
                 lastRun := pruneTo (bg_currentIds run) (lastRun ns),
                 lastFullInventoryAt := Some (nowIso e),
                 inventoryCursor := None,
                 inventoryInProgress := False\<rparr>\<rparr>
      else if fullInventoryMode run
      then run\<lparr>bg_outcome := Resolved, nextState := ns\<lparr>inventoryInProgress := True\<rparr>\<rparr>
      else run\<lparr>bg_outcome := Resolved,
               nextState := ns\<lparr>inventoryCursor := None, inventoryInProgress := False\<rparr>\<rparr>)"
| "onMessage e (SyncError err) run =
     run\<lparr>bg_outcome := Rejected (if err = [] then ''Sync error'' else err)\<rparr>"

text \<open>
  The port delivers the messages in order until the promise of the run is settled: the
  handlers that resolve or reject it disconnect the port first.
\<close>

fun runMessages :: "env \<Rightarrow> msg list \<Rightarrow> bgRun \<Rightarrow> bgRun" where
  "runMessages e [] run = run"
| "runMessages e (m # ms) run =
     (if bg_outcome run \<noteq> Running then run else runMessages e ms (onMessage e m run))"

definition startRun :: "syncState \<Rightarrow> bgRun" where
  "startRun stored =
     \<lparr>nextState = stored, bg_currentIds = [], fullInventoryMode = False, bg_outcome = Running\<rparr>"

text \<open>
  \<open>setSyncState\<close>: the full state, or the slim state when the full one is refused, or
  nothing when both writes fail.
\<close>

definition setSyncState :: "env \<Rightarrow> syncState \<Rightarrow> syncState \<Rightarrow> syncState" where
  "setSyncState e stored state =
     (case persist e of
        SavedFull \<Rightarrow> state
      | SavedSlim \<Rightarrow>
          \<lparr>conversations = conversations state,
           ss_meta = DAList.empty,
           lastRun = DAList.empty,
           lastFullInventoryAt =
             (if lastFullInventoryAt state = Some [] then None else lastFullInventoryAt state),
           inventoryCursor = inventoryCursor state,
           inventoryInProgress = inventoryInProgress state\<rparr>
      | SaveFailed \<Rightarrow> stored)"


subsection \<open>The content script: pages, classification, body fetches\<close>

record page =
  p_items :: "item list"
  p_total :: nat
  p_hasMore :: bool
  p_limit :: nat
  p_pageMinUpdate :: rat

record pageState =
  ps_remaining :: int
  ps_nextOffset :: nat
  ps_limit :: nat
  ps_done :: bool

text \<open>
  The local variables of the content script's \<open>runSync\<close> that the engine reads again,
  with its effects: \<open>outbox\<close> are the messages posted to the port, \<open>requests\<close> the calls of
  \<open>fetchConversationPage\<close>, \<open>files\<close> the conversation artifacts in the folder,
  \<open>indexFile\<close> the content of \<open>index.json\<close>, \<open>deleteCalls\<close> the calls of
  \<open>deleteConversation\<close>, \<open>thrown\<close> an exception on its way to the \<open>catch\<close> block.
\<close>

record cs =
  forceFullInventory :: bool
  updatedCount :: nat
  skippedCount :: nat
  errorCount :: nat
  didFullInventory :: bool
  listedCount :: nat
  offset :: nat
  limit :: nat
  pageCount :: nat
  metaMap :: "meta obj"
  currentIds :: "string list"
  pageStates :: "pageState list"
  nextCursorIndex :: nat
  queue :: "(item \<times> nat) list"
  outbox :: "msg list"
  requests :: "(nat \<times> nat) list"
  files :: "artifact list"
  indexFile :: "meta list option"
  deleteCalls :: "string list"
  thrown :: "string option"

definition maxPages :: nat where
  "maxPages = 200"

text \<open>\<open>toEpochSeconds(item.update_time) || toEpochSeconds(item.create_time)\<close>\<close>

definition itemUpdateTime :: "env \<Rightarrow> item \<Rightarrow> rat" where
  "itemUpdateTime e it =
     orElse (toEpochSeconds e (item_update_time it)) (toEpochSeconds e (item_create_time it))"

definition pageMinUpdateOf :: "env \<Rightarrow> item list \<Rightarrow> rat" where
  "pageMinUpdateOf e items =
     foldl (\<lambda>pageMinUpdate it.
              let itemUpdate = itemUpdateTime e it
              in if pageMinUpdate = 0 \<or> itemUpdate < pageMinUpdate then itemUpdate
                 else pageMinUpdate) 0 items"

definition pageOf :: "env \<Rightarrow> nat \<Rightarrow> nat \<Rightarrow> rawdata \<Rightarrow> page" where
  "pageOf e offs candidate data =
     (let items = d_items data;
          total = (case d_total data of Some t \<Rightarrow> t | None \<Rightarrow> length items)
      in \<lparr>p_items = items,
          p_total = total,
          p_hasMore = (case d_has_more data of
                         Some flag \<Rightarrow> flag
                       | None \<Rightarrow> offs + length items < total),
          p_limit = candidate,
          p_pageMinUpdate = pageMinUpdateOf e items\<rparr>)"

fun tryLimits :: "env \<Rightarrow> nat \<Rightarrow> nat list \<Rightarrow> page option" where
  "tryLimits e offs [] = None"
| "tryLimits e offs (candidate # rest) =
     (case fetchJson e offs candidate of
        Some data \<Rightarrow> Some (pageOf e offs candidate data)
      | None \<Rightarrow> tryLimits e offs rest)"

text \<open>\<open>[limit, 100, 50].filter((value, index, self) => self.indexOf(value) === index)\<close>\<close>

definition fallbackLimits :: "nat \<Rightarrow> nat list" where
  "fallbackLimits lmt = rev (remdups (rev [lmt, 100, 50]))"

definition fetchConversationPage :: "env \<Rightarrow> nat \<Rightarrow> nat \<Rightarrow> page option" where
  "fetchConversationPage e offs lmt = tryLimits e offs (fallbackLimits lmt)"

function maybeAdvanceLoop :: "cs \<Rightarrow> cs" where
  "maybeAdvanceLoop s =
     (if nextCursorIndex s < length (pageStates s) \<and> ps_done (pageStates s ! nextCursorIndex s)
      then maybeAdvanceLoop
             (s\<lparr>outbox := outbox s @
                   [SyncProgress (Some (ps_nextOffset (pageStates s ! nextCursorIndex s),
                                        ps_limit (pageStates s ! nextCursorIndex s)))],
                nextCursorIndex := nextCursorIndex s + 1\<rparr>)
      else s)"
  by pat_completeness auto
termination
  by (relation "measure (\<lambda>s. length (pageStates s) - nextCursorIndex s)") auto

declare maybeAdvanceLoop.simps [simp del]

definition maybeAdvanceCursor :: "cs \<Rightarrow> cs" where
  "maybeAdvanceCursor s = (if \<not> forceFullInventory s then s else maybeAdvanceLoop s)"

definition markPageItemDone :: "nat \<Rightarrow> cs \<Rightarrow> cs" where
  "markPageItemDone pageIndex s =
     (if pageIndex \<ge> length (pageStates s) then s
      else let state = pageStates s ! pageIndex in
        if ps_done state then s
        else let state1 = state\<lparr>ps_remaining := ps_remaining state - 1\<rparr> in
          if ps_remaining state1 \<le> 0
          then maybeAdvanceCursor
                 (s\<lparr>pageStates := (pageStates s)[pageIndex := state1\<lparr>ps_done := True\<rparr>]\<rparr>)
          else s\<lparr>pageStates := (pageStates s)[pageIndex := state1]\<rparr>)"

text \<open>
  \<open>pageStates[pageIndex] = {...}\<close> with \<open>pageIndex\<close> the page count before its increment:
  both start at zero and grow together, so the assignment appends.
\<close>

definition openPage :: "nat \<Rightarrow> cs \<Rightarrow> cs" where
  "openPage n s =
     s\<lparr>pageStates := pageStates s @
          [\<lparr>ps_remaining = int n, ps_nextOffset = offset s + n, ps_limit = limit s,
            ps_done = False\<rparr>]\<rparr>"

definition classifyItem :: "env \<Rightarrow> rat obj \<Rightarrow> nat \<Rightarrow> cs \<Rightarrow> item \<Rightarrow> cs" where
  "classifyItem e knownConversations pageIndex s it =
     (let cid = item_id it;
          updateTime = itemUpdateTime e it;
          knownTime = numOr0 knownConversations cid;
          existing = DAList.lookup (metaMap s) cid;
          createTimeSeconds =
            orElse (toEpochSeconds e (item_create_time it))
                   (case existing of Some m \<Rightarrow> m_create_time m | None \<Rightarrow> 0);
          existingMetaUpdate = (case existing of Some m \<Rightarrow> m_update_time m | None \<Rightarrow> 0);
          mergedUpdateTime = max (max updateTime knownTime) existingMetaUpdate;
          s1 = s\<lparr>currentIds := setAdd cid (currentIds s),
                 metaMap := DAList.update cid
                   \<lparr>m_id = cid,
                    m_title = (if item_title it \<noteq> [] then item_title it
                               else case existing of Some m \<Rightarrow> m_title m | None \<Rightarrow> []),
                    m_create_time = createTimeSeconds,
                    m_update_time = mergedUpdateTime\<rparr> (metaMap s)\<rparr>
      in if updateTime \<le> knownTime
         then markPageItemDone pageIndex
                (s1\<lparr>skippedCount := skippedCount s1 + 1,
                    outbox := outbox s1 @
                      [ConversationSkip cid (item_title it) createTimeSeconds mergedUpdateTime]\<rparr>)
         else s1\<lparr>queue := queue s1 @ [(it, pageIndex)]\<rparr>)"

definition stopForTime :: "rat option \<Rightarrow> rat \<Rightarrow> bool" where
  "stopForTime stopAfterTime pageMinUpdate =
     (case stopAfterTime of
        None \<Rightarrow> False
      | Some w \<Rightarrow> w \<noteq> 0 \<and> pageMinUpdate \<noteq> 0 \<and> pageMinUpdate \<le> w)"

text \<open>One page of the listing loop, after the checks for an empty page and the page ceiling.\<close>

definition listPage :: "env \<Rightarrow> rat obj \<Rightarrow> rat option \<Rightarrow> page \<Rightarrow> cs \<Rightarrow> cs" where
  "listPage e knownConversations stopAfterTime pg s =
     (let items = p_items pg;
          pageIndex = length (pageStates s);
          nextOffset = offset s + length items;
          s1 = openPage (length items) s;
          s2 = (if stopForTime stopAfterTime (p_pageMinUpdate pg)
                then s1\<lparr>didFullInventory := False\<rparr> else s1);
          s3 = foldl (classifyItem e knownConversations pageIndex) s2 items
      in s3\<lparr>offset := nextOffset\<rparr>)"

lemma pageCount_markPageItemDone_aux: "pageCount (maybeAdvanceLoop s) = pageCount s"
  by (induction s rule: maybeAdvanceLoop.induct) (subst maybeAdvanceLoop.simps, simp)

lemma pageCount_markPageItemDone [simp]: "pageCount (markPageItemDone i s) = pageCount s"
  by (simp add: markPageItemDone_def maybeAdvanceCursor_def Let_def pageCount_markPageItemDone_aux)

lemma pageCount_classifyItem [simp]: "pageCount (classifyItem e known i s it) = pageCount s"
  by (simp add: classifyItem_def Let_def)

lemma pageCount_foldl_classifyItem [simp]:
  "pageCount (foldl (classifyItem e known i) s items) = pageCount s"
  by (induction items arbitrary: s) simp_all

lemma pageCount_listPage [simp]: "pageCount (listPage e known w pg s) = pageCount s"
  by (simp add: listPage_def Let_def openPage_def)

text \<open>
  The \<open>while (pagePromise)\<close> loop. The request for the next page is logged when the next
  round awaits it; it is issued exactly when \<open>shouldContinue\<close> holds.
\<close>

function listLoop :: "env \<Rightarrow> rat obj \<Rightarrow> rat option \<Rightarrow> cs \<Rightarrow> cs" where
  "listLoop e knownConversations stopAfterTime s =
     (case fetchConversationPage e (offset s) (limit s) of
        None \<Rightarrow> s\<lparr>requests := requests s @ [(offset s, limit s)],
                   thrown := Some ''Failed to fetch conversations''\<rparr>
      | Some pg \<Rightarrow>
          let s1 = s\<lparr>requests := requests s @ [(offset s, limit s)], limit := p_limit pg\<rparr>;
              items = p_items pg
          in if items = []
             then (if listedCount s1 = 0 then s1\<lparr>didFullInventory := False\<rparr> else s1)
             else
               let s2 = s1\<lparr>listedCount := listedCount s1 + length items,
                           pageCount := pageCount s1 + 1\<rparr>
               in if pageCount s2 > maxPages
                  then s2\<lparr>didFullInventory := False\<rparr>
                  else
                    let shouldContinue =
                          (\<not> stopForTime stopAfterTime (p_pageMinUpdate pg)
                           \<and> (p_hasMore pg \<or> length items \<ge> limit s2));
                        s3 = listPage e knownConversations stopAfterTime pg s2
                    in if shouldContinue
                       then listLoop e knownConversations stopAfterTime s3
                       else s3)"
  by pat_completeness auto
termination
  by (relation "measure (\<lambda>(e, k, w, s). Suc maxPages - pageCount s)") auto

declare listLoop.simps [simp del]


subsection \<open>The content script: artifacts, removal pass, the run\<close>

text \<open>
  \<open>writeConversation\<close> and \<open>deleteConversation\<close> return the folder's artifacts and whether
  they threw; a file written or removed before the exception stays written or removed.
  Removing a file that does not exist is not an error.
\<close>

definition writeConversation ::
  "env \<Rightarrow> options \<Rightarrow> conversation \<Rightarrow> artifact list \<Rightarrow> artifact list \<times> string option" where
  "writeConversation e opts conv fs =
     (let cid = conv_id conv in
      if cid = [] then (fs, Some ''Missing conversation id'')
      else if includeJson opts \<and> writeFails e (JsonFile cid) then (fs, Some ''Write failed'')
      else
        let fs1 = (if includeJson opts then List.insert (JsonFile cid) fs else fs) in
        if includeMarkdown opts \<and> writeFails e (MdFile cid) then (fs1, Some ''Write failed'')
        else (if includeMarkdown opts then List.insert (MdFile cid) fs1 else fs1, None))"

definition deleteConversation ::
  "env \<Rightarrow> options \<Rightarrow> string \<Rightarrow> artifact list \<Rightarrow> artifact list \<times> bool" where
  "deleteConversation e opts cid fs =
     (if includeJson opts \<and> deleteFails e (JsonFile cid) then (fs, True)
      else
        let fs1 = (if includeJson opts then removeAll (JsonFile cid) fs else fs) in
        if includeMarkdown opts \<and> deleteFails e (MdFile cid) then (fs1, True)
        else (if includeMarkdown opts then removeAll (MdFile cid) fs1 else fs1, False))"

definition processItem :: "env \<Rightarrow> options \<Rightarrow> cs \<Rightarrow> item \<times> nat \<Rightarrow> cs" where
  "processItem e opts s payload =
     (case payload of (it, pageIndex) \<Rightarrow>
        let cid = item_id it;
            updateTime = itemUpdateTime e it;
            s1 = (case fetchConversation e cid of
                    Inl err \<Rightarrow>
                      s\<lparr>errorCount := errorCount s + 1,
                        outbox := outbox s @ [ConversationError cid err]\<rparr>
                  | Inr conv \<Rightarrow>
                      let conversationUpdate = toEpochSeconds e (conv_update_time conv);
                          metaUpdateTime = max updateTime conversationUpdate;
                          createTimeSeconds =
                            orElse (toEpochSeconds e (conv_create_time conv))
                                   (toEpochSeconds e (item_create_time it));
                          title = (if conv_title conv \<noteq> [] then conv_title conv
                                   else item_title it);
                          s' = s\<lparr>metaMap := DAList.update cid
                                  \<lparr>m_id = cid, m_title = title,
                                   m_create_time = createTimeSeconds,
                                   m_update_time = metaUpdateTime\<rparr> (metaMap s)\<rparr>
                      in case writeConversation e opts conv (files s') of
                           (fs, Some err) \<Rightarrow>
                             s'\<lparr>files := fs, errorCount := errorCount s' + 1,
                                outbox := outbox s' @ [ConversationError cid err]\<rparr>
                         | (fs, None) \<Rightarrow>
                             s'\<lparr>files := fs,
                                outbox := outbox s' @
                                  [ConversationMsg cid title createTimeSeconds metaUpdateTime],
                                updatedCount := updatedCount s' + 1\<rparr>)
        in markPageItemDone pageIndex s1)"

text \<open>
  The workers drain the queue. The model lets the body fetches complete after the listing
  loop, in queue order; the cursor bookkeeping is verified for every interleaving below.
\<close>

definition drainQueue :: "env \<Rightarrow> options \<Rightarrow> cs \<Rightarrow> cs" where
  "drainQueue e opts s = (foldl (processItem e opts) s (queue s))\<lparr>queue := []\<rparr>"

definition removeOne :: "env \<Rightarrow> options \<Rightarrow> cs \<Rightarrow> string \<Rightarrow> cs" where
  "removeOne e opts s cid =
     (let s1 = s\<lparr>metaMap := DAList.delete cid (metaMap s)\<rparr> in
      if deleteRemoved opts
      then (case deleteConversation e opts cid (files s1) of
              (fs, failed) \<Rightarrow>
                s1\<lparr>files := fs, deleteCalls := deleteCalls s1 @ [cid],
                   errorCount := errorCount s1 + (if failed then 1 else 0)\<rparr>)
      else s1)"

definition removedIds :: "cs \<Rightarrow> string list" where
  "removedIds s = filter (\<lambda>cid. cid \<notin> set (currentIds s)) (keys (metaMap s))"

definition removalPass :: "env \<Rightarrow> options \<Rightarrow> cs \<Rightarrow> cs" where
  "removalPass e opts s =
     (if didFullInventory s then foldl (removeOne e opts) s (removedIds s) else s)"

definition writeIndex :: "env \<Rightarrow> cs \<Rightarrow> cs" where
  "writeIndex e s =
     (if indexWriteFails e then s\<lparr>thrown := Some ''Write failed''\<rparr>
      else s\<lparr>indexFile := Some (sort_key (\<lambda>m. - m_update_time m) (vals (metaMap s)))\<rparr>)"

definition initialCs ::
  "bool \<Rightarrow> nat \<Rightarrow> meta obj \<Rightarrow> meta list option \<Rightarrow> artifact list \<Rightarrow> cs" where
  "initialCs forceFull resumeOffset knownMeta idx fs =
     \<lparr>forceFullInventory = forceFull, updatedCount = 0, skippedCount = 0, errorCount = 0,
      didFullInventory = forceFull, listedCount = 0, offset = resumeOffset, limit = 100,
      pageCount = 0, metaMap = knownMeta, currentIds = [], pageStates = [],
      nextCursorIndex = 0, queue = [],
      outbox = [SyncMode forceFull resumeOffset 100],
      requests = [], files = fs, indexFile = idx, deleteCalls = [], thrown = None\<rparr>"

text \<open>The state when the listing loop has ended (or thrown).\<close>

definition listing ::
  "env \<Rightarrow> options \<Rightarrow> rat obj \<Rightarrow> meta obj \<Rightarrow> string option \<Rightarrow> cursor option
     \<Rightarrow> meta list option \<Rightarrow> artifact list \<Rightarrow> cs" where
  "listing e opts knownConversations0 knownMeta0 lastFull cur idx fs =
     (let (knownConversations, knownMeta) = initialKnown knownConversations0 knownMeta0 idx;
          forceFull = shouldForceFullInventory e opts knownConversations lastFull;
          resumeOffset = resumeOffsetFor e forceFull cur;
          stopAfterTime =
            (if forceFull then None else Some (getMaxKnownUpdateTime knownConversations))
      in listLoop e knownConversations stopAfterTime
           (initialCs forceFull resumeOffset knownMeta idx fs))"

definition finishSync :: "env \<Rightarrow> options \<Rightarrow> cs \<Rightarrow> cs" where
  "finishSync e opts s =
     (case thrown s of
        Some err \<Rightarrow> s\<lparr>outbox := outbox s @ [SyncError err]\<rparr>
      | None \<Rightarrow>
          let s1 = writeIndex e (removalPass e opts (drainQueue e opts s)) in
          case thrown s1 of
            Some err \<Rightarrow> s1\<lparr>outbox := outbox s1 @ [SyncError err]\<rparr>
          | None \<Rightarrow>
              s1\<lparr>outbox := outbox s1 @
                   [SyncComplete (didFullInventory s1) (updatedCount s1) (skippedCount s1)
                      (errorCount s1)]\<rparr>)"

text \<open>The content script's \<open>runSync\<close>, from the folder check to the last message.\<close>

definition contentRunSync ::
  "env \<Rightarrow> options \<Rightarrow> rat obj \<Rightarrow> meta obj \<Rightarrow> string option \<Rightarrow> cursor option
     \<Rightarrow> meta list option \<Rightarrow> artifact list \<Rightarrow> cs" where
  "contentRunSync e opts knownConversations knownMeta lastFull cur idx fs =
     (case folder e of
        NoFolder \<Rightarrow> (initialCs False 0 knownMeta idx fs)\<lparr>outbox := [SyncRequiresFolder]\<rparr>
      | NoPermission \<Rightarrow>
          (initialCs False 0 knownMeta idx fs)\<lparr>outbox := [SyncPermissionRequired]\<rparr>
      | FolderOk \<Rightarrow>
          (case tokenError e of
             Some err \<Rightarrow> (initialCs False 0 knownMeta idx fs)\<lparr>outbox := [SyncError err]\<rparr>
           | None \<Rightarrow>
               finishSync e opts
                 (listing e opts knownConversations knownMeta lastFull
                    cur idx fs)))"

subsection \<open>One run of the service worker against the content script\<close>

record store =
  st_sync :: syncState
  st_index :: "meta list option"
  st_files :: "artifact list"

definition orNull :: "string option \<Rightarrow> string option" where
  "orNull v = (if v = Some [] then None else v)"

text \<open>The content script's final state for a run started on a store.\<close>

definition contentOf :: "env \<Rightarrow> options \<Rightarrow> store \<Rightarrow> cs" where
  "contentOf e opts st =
     contentRunSync e opts (conversations (st_sync st)) (ss_meta (st_sync st))
       (orNull (lastFullInventoryAt (st_sync st))) (inventoryCursor (st_sync st))
       (st_index st) (st_files st)"

text \<open>
  A run that resolves leaves the state \<open>setSyncState\<close> wrote; a run that is rejected leaves
  whatever its last checkpoint wrote, which the model does not determine (\<open>None\<close>).
\<close>

definition syncOnce :: "env \<Rightarrow> options \<Rightarrow> store \<Rightarrow> store option" where
  "syncOnce e opts st =
     (let c = contentOf e opts st;
          run = runMessages e (outbox c) (startRun (st_sync st))
      in case bg_outcome run of
           Resolved \<Rightarrow>
             Some \<lparr>st_sync = setSyncState e (st_sync st) (nextState run),
                   st_index = indexFile c, st_files = files c\<rparr>
         | _ \<Rightarrow> None)"


text \<open>What \<open>setSyncState\<close> leaves in storage when it is called after the messages \<open>ms\<close>.\<close>

definition stateAfter :: "env \<Rightarrow> syncState \<Rightarrow> msg list \<Rightarrow> syncState" where
  "stateAfter e stored ms = setSyncState e stored (nextState (runMessages e ms (startRun stored)))"


definition demoState :: syncState where
  "demoState =
     \<lparr>conversations = DAList.update ''A'' 100 DAList.empty,
      ss_meta = DAList.empty, lastRun = DAList.empty,
      lastFullInventoryAt = Some ''T1'', inventoryCursor = None, inventoryInProgress = False\<rparr>"

subsection \<open>Concrete inputs\<close>

definition demoEnv :: env where
  "demoEnv =
     \<lparr>parseFloat = (\<lambda>s. None),
      dateParse = (\<lambda>s. if s = ''T0'' then Some 0 else if s = ''T1'' then Some 1000 else None),
      dateNow = 2000,
      nowIso = ''T1'',
      folder = FolderOk,
      tokenError = None,
      fetchJson = (\<lambda>offset limit. None),
      fetchConversation = (\<lambda>cid. Inl ''HTTP 500''),
      writeFails = (\<lambda>a. False),
      deleteFails = (\<lambda>a. False),
      indexWriteFails = False,
      persist = SavedFull\<rparr>"


definition demoIndex :: "meta list" where
  "demoIndex = [\<lparr>m_id = ''A'', m_title = ''a'', m_create_time = 1, m_update_time = 200\<rparr>]"

text \<open>
  The cursor bookkeeping under any interleaving: a page enters the listing
  (\<open>PageListed n\<close>, a page of \<open>n\<close> items) or one item of a page reaches a terminal state
  (\<open>ItemDone i\<close>: skipped in the listing loop, or fetched or failed in a worker).
\<close>

datatype pageEvent = PageListed nat | ItemDone nat

definition cursorStep :: "cs \<Rightarrow> pageEvent \<Rightarrow> cs" where
  "cursorStep s ev =
     (case ev of
        PageListed n \<Rightarrow> (openPage n s)\<lparr>offset := offset s + n\<rparr>
      | ItemDone i \<Rightarrow> markPageItemDone i s)"

definition cursorsOf :: "msg list \<Rightarrow> (nat \<times> nat) list" where
  "cursorsOf ms = List.map_filter (\<lambda>m. case m of SyncProgress c \<Rightarrow> c | _ \<Rightarrow> None) ms"

definition listedPages :: "pageEvent list \<Rightarrow> nat list" where
  "listedPages evs = List.map_filter (\<lambda>ev. case ev of PageListed n \<Rightarrow> Some n | _ \<Rightarrow> None) evs"

definition cursorOfPage :: "pageState \<Rightarrow> nat \<times> nat" where
  "cursorOfPage p = (ps_nextOffset p, ps_limit p)"

definition cursorInv :: "cs \<Rightarrow> bool" where
  "cursorInv s \<longleftrightarrow>
     nextCursorIndex s \<le> length (pageStates s)
     \<and> cursorsOf (outbox s) = take (nextCursorIndex s) (map cursorOfPage (pageStates s))
     \<and> (\<forall>i < nextCursorIndex s. ps_done (pageStates s ! i))"

definition pageInv :: "pageEvent list \<Rightarrow> cs \<Rightarrow> bool" where
  "pageInv evs s \<longleftrightarrow>
     length (pageStates s) = length (listedPages evs)
     \<and> (\<forall>i < length (pageStates s).
           int (listedPages evs ! i) - int (count_list evs (ItemDone i))
             \<le> ps_remaining (pageStates s ! i)
           \<and> (ps_done (pageStates s ! i) \<longrightarrow> ps_remaining (pageStates s ! i) \<le> 0))"

definition offsetInv :: "cs \<Rightarrow> bool" where
  "offsetInv s \<longleftrightarrow>
     sorted (map ps_nextOffset (pageStates s))
     \<and> (\<forall>x \<in> set (map ps_nextOffset (pageStates s)). x \<le> offset s)"

definition demoCs :: cs where
  "demoCs = initialCs True 0 DAList.empty None []"

text \<open>The items of a page that are pending: those newer than the known state says.\<close>

definition pendingItems :: "env \<Rightarrow> rat obj \<Rightarrow> item list \<Rightarrow> item list" where
  "pendingItems e known items =
     filter (\<lambda>it. \<not> itemUpdateTime e it \<le> numOr0 known (item_id it)) items"

definition listingMessage :: "msg \<Rightarrow> bool" where
  "listingMessage m =
     (case m of SyncProgress c \<Rightarrow> True | ConversationSkip cid t c u \<Rightarrow> True | _ \<Rightarrow> False)"

definition pageEntered :: "page \<Rightarrow> cs \<Rightarrow> cs" where
  "pageEntered pg s =
     s\<lparr>requests := requests s @ [(offset s, limit s)], limit := p_limit pg,
       listedCount := listedCount s + length (p_items pg), pageCount := pageCount s + 1\<rparr>"

text \<open>
  Every request of the loop but the last fetched a page that did not meet the stopping
  rule.
\<close>

definition stopsOnlyAtLast :: "env \<Rightarrow> rat option \<Rightarrow> (nat \<times> nat) list \<Rightarrow> bool" where
  "stopsOnlyAtLast e w rq \<longleftrightarrow>
     (\<forall>j pg. Suc j < length rq \<and> fetchConversationPage e (fst (rq ! j)) (snd (rq ! j)) = Some pg
        \<longrightarrow> \<not> stopForTime w (p_pageMinUpdate pg))"

definition demoOpts :: options where
  "demoOpts = \<lparr>includeMarkdown = True, includeJson = True, deleteRemoved = False\<rparr>"

definition itemA :: item where
  "itemA = \<lparr>item_id = ''A'', item_title = ''a'', item_update_time = JNum 200,
            item_create_time = JNum 1\<rparr>"

definition itemB :: item where
  "itemB = \<lparr>item_id = ''B'', item_title = ''b'', item_update_time = JNum 50,
            item_create_time = JNum 1\<rparr>"

text \<open>An item without time stamps.\<close>

definition itemZ :: item where
  "itemZ = \<lparr>item_id = ''Z'', item_title = ''z'', item_update_time = JOther,
            item_create_time = JOther\<rparr>"

definition emptyData :: rawdata where
  "emptyData = \<lparr>d_items = [], d_total = None, d_has_more = None\<rparr>"

definition knownB :: "rat obj" where
  "knownB = DAList.update ''B'' 50 DAList.empty"

text \<open>A remote whose first page says that more data follows.\<close>

definition remoteOf :: "item list \<Rightarrow> env" where
  "remoteOf items =
     demoEnv\<lparr>fetchJson := (\<lambda>offs lmt.
        if offs = 0 then Some \<lparr>d_items = items, d_total = None, d_has_more = Some True\<rparr>
        else Some emptyData)\<rparr>"

text \<open>A remote that never runs out of pages.\<close>

definition endlessEnv :: env where
  "endlessEnv =
     demoEnv\<lparr>fetchJson := (\<lambda>offs lmt.
        Some \<lparr>d_items = [itemB], d_total = None, d_has_more = Some True\<rparr>)\<rparr>"

definition emptyRemote :: env where
  "emptyRemote = demoEnv\<lparr>fetchJson := (\<lambda>offs lmt. Some emptyData)\<rparr>"

definition isFullComplete :: "msg \<Rightarrow> bool" where
  "isFullComplete m = (case m of SyncComplete f u s r \<Rightarrow> f | _ \<Rightarrow> False)"

text \<open>Whether \<open>deleteConversation\<close> throws for an id.\<close>

definition deletionFails :: "env \<Rightarrow> options \<Rightarrow> string \<Rightarrow> bool" where
  "deletionFails e opts cid \<longleftrightarrow>
     (includeJson opts \<and> deleteFails e (JsonFile cid))
     \<or> (includeMarkdown opts \<and> deleteFails e (MdFile cid))"

text \<open>The listing of the run started on a store.\<close>

definition listingOf :: "env \<Rightarrow> options \<Rightarrow> store \<Rightarrow> cs" where
  "listingOf e opts st =
     listing e opts (conversations (st_sync st)) (ss_meta (st_sync st))
       (orNull (lastFullInventoryAt (st_sync st))) (inventoryCursor (st_sync st))
       (st_index st) (st_files st)"

text \<open>A remote whose single page ends the listing.\<close>

definition remoteDone :: "item list \<Rightarrow> env" where
  "remoteDone items =
     demoEnv\<lparr>fetchJson := (\<lambda>offs lmt.
        if offs = 0 then Some \<lparr>d_items = items, d_total = None, d_has_more = Some False\<rparr>
        else Some emptyData)\<rparr>"

definition metaOf :: "string \<Rightarrow> rat \<Rightarrow> meta" where
  "metaOf cid t = \<lparr>m_id = cid, m_title = cid, m_create_time = 1, m_update_time = t\<rparr>"

text \<open>A store that knows A, B and C and has never completed a full inventory.\<close>

definition storeABC :: store where
  "storeABC =
     \<lparr>st_sync =
        \<lparr>conversations =
           DAList.update ''C'' 10 (DAList.update ''B'' 50 (DAList.update ''A'' 200 DAList.empty)),
         ss_meta =
           DAList.update ''C'' (metaOf ''C'' 10) (DAList.update ''B'' (metaOf ''B'' 50)
             (DAList.update ''A'' (metaOf ''A'' 200) DAList.empty)),
         lastRun = DAList.empty,
         lastFullInventoryAt = None, inventoryCursor = None, inventoryInProgress = False\<rparr>,
      st_index = None,
      st_files = [JsonFile ''A'', JsonFile ''C'', MdFile ''C'']\<rparr>"

text \<open>A store that knows A at time 100 and B at time 50, after a recent full inventory.\<close>

definition storeAB :: store where
  "storeAB =
     \<lparr>st_sync =
        \<lparr>conversations = DAList.update ''B'' 50 (DAList.update ''A'' 100 DAList.empty),
         ss_meta = DAList.empty, lastRun = DAList.empty,
         lastFullInventoryAt = Some ''T1'', inventoryCursor = None,
         inventoryInProgress = False\<rparr>,
      st_index = None, st_files = []\<rparr>"

text \<open>Every metadata entry is stored under its own id.\<close>

definition wellKeyed :: "meta obj \<Rightarrow> bool" where
  "wellKeyed M \<longleftrightarrow> (\<forall>k m. DAList.lookup M k = Some m \<longrightarrow> m_id m = k)"

text \<open>The update times of the metadata map are bounded below by \<open>fl\<close>.\<close>

definition metaFloor :: "(string \<Rightarrow> rat option) \<Rightarrow> meta obj \<Rightarrow> bool" where
  "metaFloor fl M \<longleftrightarrow>
     (\<forall>k u. fl k = Some u \<longrightarrow> (\<exists>m. DAList.lookup M k = Some m \<and> u \<le> m_update_time m))"

definition readIndexStep :: "rat obj \<times> meta obj \<Rightarrow> meta \<Rightarrow> rat obj \<times> meta obj" where
  "readIndexStep acc entry =
     (case acc of (convs, metas) \<Rightarrow>
        if m_id entry = [] then (convs, metas)
        else (DAList.update (m_id entry) (m_update_time entry) convs,
              DAList.update (m_id entry) entry metas))"

definition indexPair :: "meta set \<Rightarrow> rat obj \<times> meta obj \<Rightarrow> bool" where
  "indexPair S acc \<longleftrightarrow>
     (\<forall>k. DAList.lookup (fst acc) k = map_option m_update_time (DAList.lookup (snd acc) k)
          \<and> (\<forall>m. DAList.lookup (snd acc) k = Some m \<longrightarrow> m_id m = k \<and> k \<noteq> [] \<and> m \<in> S))"

text \<open>
  For a remote whose items carry the times \<open>tm\<close>: the metadata map is well keyed, every
  classified id has an entry at least as new as the remote says, the entries do not fall
  below the floor \<open>fl\<close>, and the queue holds items that are newer than the known state.
\<close>

definition runInv ::
  "env \<Rightarrow> rat obj \<Rightarrow> (string \<Rightarrow> rat) \<Rightarrow> (string \<Rightarrow> rat option) \<Rightarrow> cs \<Rightarrow> bool" where
  "runInv e known tm fl s \<longleftrightarrow>
     wellKeyed (metaMap s)
     \<and> (\<forall>k \<in> set (currentIds s).
           \<exists>m. DAList.lookup (metaMap s) k = Some m \<and> tm k \<le> m_update_time m)
     \<and> metaFloor fl (metaMap s)
     \<and> (\<forall>p \<in> set (queue s). itemUpdateTime e (fst p) = tm (item_id (fst p))
           \<and> numOr0 known (item_id (fst p)) < tm (item_id (fst p)))"

definition classifiedMeta :: "env \<Rightarrow> rat obj \<Rightarrow> meta obj \<Rightarrow> item \<Rightarrow> meta" where
  "classifiedMeta e known M it =
     \<lparr>m_id = item_id it,
      m_title = (if item_title it \<noteq> [] then item_title it
                 else case DAList.lookup M (item_id it) of Some m \<Rightarrow> m_title m | None \<Rightarrow> []),
      m_create_time =
        orElse (toEpochSeconds e (item_create_time it))
               (case DAList.lookup M (item_id it) of Some m \<Rightarrow> m_create_time m | None \<Rightarrow> 0),
      m_update_time =
        max (max (itemUpdateTime e it) (numOr0 known (item_id it)))
            (case DAList.lookup M (item_id it) of Some m \<Rightarrow> m_update_time m | None \<Rightarrow> 0)\<rparr>"

text \<open>
  The items the listing loop classifies when it requests the page at \<open>offs\<close> with the limit
  \<open>lmt\<close> and \<open>n\<close> more pages fit under the page ceiling. They depend on the remote and on
  the stopping time only.
\<close>

fun classified :: "env \<Rightarrow> rat option \<Rightarrow> nat \<Rightarrow> nat \<Rightarrow> nat \<Rightarrow> item list" where
  "classified e w 0 offs lmt = []"
| "classified e w (Suc n) offs lmt =
     (case fetchConversationPage e offs lmt of
        None \<Rightarrow> []
      | Some pg \<Rightarrow>
          if p_items pg = [] then []
          else p_items pg @
               (if \<not> stopForTime w (p_pageMinUpdate pg)
                   \<and> (p_hasMore pg \<or> length (p_items pg) \<ge> p_limit pg)
                then classified e w n (offs + length (p_items pg)) (p_limit pg)
                else []))"

definition listedAs :: "env \<Rightarrow> rat obj \<Rightarrow> item list \<Rightarrow> cs \<Rightarrow> cs \<Rightarrow> bool" where
  "listedAs e known items s r \<longleftrightarrow>
     set (currentIds r) = set (currentIds s) \<union> item_id ` set items
     \<and> fst ` set (queue r) = fst ` set (queue s) \<union> set (pendingItems e known items)
     \<and> updatedCount r = updatedCount s"

section \<open>Mode selector\<close>

text \<open>
  C6. The mode decision is a full inventory exactly when the known state is empty, or
  deletion of removed records is enabled, or the time of the last full inventory is absent
  (null or the empty string) or does not parse, or more than 24 hours (86400000 ms) have
  passed since it; otherwise the pass is partial.
\<close>

theorem shouldForceFullInventory_rules:
  "shouldForceFullInventory e opts known lastFull \<longleftrightarrow>
     (keys known = []
      \<or> deleteRemoved opts
      \<or> lastFull = None \<or> lastFull = Some []
      \<or> (\<exists>s. lastFull = Some s \<and> dateParse e s = None)
      \<or> (\<exists>s t. lastFull = Some s \<and> dateParse e s = Some t \<and> dateNow e - t > 86400000))"
  by (auto simp: shouldForceFullInventory_def MAX_PARTIAL_AGE_MS_def split: option.splits)


text \<open>
  C7. The listing starts at the cursor's offset when the pass is a full inventory, a cursor
  exists and the cursor is not older than the 24 hour window; in every other case (partial
  pass, no cursor, cursor older than the window) it starts at offset 0. For a cursor whose
  time stamp parses (the service worker stamps every cursor with the clock), "not older"
  is an age of at most 86400000 ms.
\<close>

theorem resumeOffset_rule:
  "resumeOffsetFor e full cur =
     (case cur of
        None \<Rightarrow> 0
      | Some c \<Rightarrow> if full \<and> \<not> cursorOlderThanWindow e c then c_offset c else 0)
   \<and> (\<forall>c t. cur = Some c \<and> c_updatedAt c \<noteq> [] \<and> dateParse e (c_updatedAt c) = Some t \<longrightarrow>
         resumeOffsetFor e full cur =
           (if full \<and> dateNow e - t \<le> 86400000 then c_offset c else 0))"
  by (auto simp: resumeOffsetFor_def getResumeOffset_def cursorOlderThanWindow_def
      MAX_PARTIAL_AGE_MS_def split: option.splits)

theorem resumeOffset_rule_witness:
  "resumeOffsetFor demoEnv True (Some \<lparr>c_offset = 300, c_limit = Some 100, c_updatedAt = ''T1''\<rparr>) = 300
   \<and> resumeOffsetFor (demoEnv\<lparr>dateNow := 90000000\<rparr>) True
        (Some \<lparr>c_offset = 300, c_limit = Some 100, c_updatedAt = ''T1''\<rparr>) = 0
   \<and> resumeOffsetFor demoEnv False (Some \<lparr>c_offset = 300, c_limit = Some 100, c_updatedAt = ''T1''\<rparr>) = 0"
  using resumeOffset_rule [of demoEnv True "Some \<lparr>c_offset = 300, c_limit = Some 100, c_updatedAt = ''T1''\<rparr>"]
        resumeOffset_rule [of "demoEnv\<lparr>dateNow := 90000000\<rparr>" True
          "Some \<lparr>c_offset = 300, c_limit = Some 100, c_updatedAt = ''T1''\<rparr>"]
        resumeOffset_rule [of demoEnv False "Some \<lparr>c_offset = 300, c_limit = Some 100, c_updatedAt = ''T1''\<rparr>"]
  by (simp add: demoEnv_def cursorOlderThanWindow_def)

section \<open>Merging the index snapshot into the known state\<close>

lemma lookup_foldl_mergeConversation:
  "distinct (map fst xs) \<Longrightarrow>
   DAList.lookup (foldl mergeConversation K xs) k =
     (case map_of xs k of
        None \<Rightarrow> DAList.lookup K k
      | Some u \<Rightarrow> Some (max (numOr0 K k) u))"
proof (induction xs arbitrary: K)
  case Nil
  then show ?case by simp
next
  case (Cons x xs)
  obtain a u where x: "x = (a, u)" by (cases x)
  from Cons.prems x have notin: "a \<notin> fst ` set xs" and d: "distinct (map fst xs)" by auto
  from notin have none: "map_of xs a = None" by (simp add: map_of_eq_None_iff)
  show ?case
    using Cons.IH [OF d, of "mergeConversation K x"] none
    by (auto simp: x mergeConversation_def DAList.lookup_update numOr0_def split: option.splits)
qed

definition mergedMetaEntry :: "meta option \<Rightarrow> meta \<Rightarrow> meta" where
  "mergedMetaEntry current m =
     (case current of
        None \<Rightarrow> m
      | Some c \<Rightarrow> if m_update_time m \<ge> m_update_time c
                  then m\<lparr>m_update_time := max (m_update_time c) (m_update_time m)\<rparr> else c)"

lemma lookup_foldl_mergeMeta:
  "distinct (map fst xs) \<Longrightarrow>
   DAList.lookup (foldl mergeMeta M xs) k =
     (case map_of xs k of
        None \<Rightarrow> DAList.lookup M k
      | Some m \<Rightarrow> if k = [] then DAList.lookup M k
                  else Some (mergedMetaEntry (DAList.lookup M k) m))"
proof (induction xs arbitrary: M)
  case Nil
  then show ?case by simp
next
  case (Cons x xs)
  obtain a m where x: "x = (a, m)" by (cases x)
  from Cons.prems x have notin: "a \<notin> fst ` set xs" and d: "distinct (map fst xs)" by auto
  from notin have none: "map_of xs a = None" by (simp add: map_of_eq_None_iff)
  show ?case
    using Cons.IH [OF d, of "mergeMeta M x"] none
    by (auto simp: x mergeMeta_def mergedMetaEntry_def DAList.lookup_update Let_def
        split: option.splits)
qed

lemma lookup_mergeKnownState_conversations:
  "DAList.lookup (fst (mergeKnownState K M (Some (ic, im)))) k =
     (case DAList.lookup ic k of
        None \<Rightarrow> DAList.lookup K k
      | Some u \<Rightarrow> Some (max (numOr0 K k) u))"
  by (simp add: mergeKnownState_def lookup_foldl_mergeConversation flip: DAList.lookup.rep_eq)

lemma lookup_mergeKnownState_meta:
  "DAList.lookup (snd (mergeKnownState K M (Some (ic, im)))) k =
     (case DAList.lookup im k of
        None \<Rightarrow> DAList.lookup M k
      | Some m \<Rightarrow> if k = [] then DAList.lookup M k
                  else Some (mergedMetaEntry (DAList.lookup M k) m))"
  by (simp add: mergeKnownState_def lookup_foldl_mergeMeta flip: DAList.lookup.rep_eq)

text \<open>
  C10. When the index snapshot is readable, the known state used by the run is the merge
  of the stored state with the snapshot. For every id the merged watermark is the maximum
  of the stored watermark and the snapshot's update time, each 0 when absent, so it is
  never below either; and a stored metadata entry is replaced only by a snapshot entry
  whose update time is at least the stored entry's. Stored watermarks are never negative
  (the message handlers of the service worker only store maxima with 0).
\<close>

theorem initialKnown_merge:
  assumes readable: "readIndex file = Some (ic, im)"
    and nonneg: "\<forall>k v. DAList.lookup known k = Some v \<longrightarrow> 0 \<le> v"
  shows "initialKnown known km file = mergeKnownState known km (Some (ic, im))
    \<and> numOr0 (fst (initialKnown known km file)) k = max (numOr0 known k) (numOr0 ic k)
    \<and> numOr0 known k \<le> numOr0 (fst (initialKnown known km file)) k
    \<and> numOr0 ic k \<le> numOr0 (fst (initialKnown known km file)) k
    \<and> (\<forall>cur. DAList.lookup km k = Some cur
             \<and> DAList.lookup (snd (initialKnown known km file)) k \<noteq> Some cur \<longrightarrow>
         (\<exists>m. DAList.lookup im k = Some m \<and> m_update_time m \<ge> m_update_time cur
              \<and> DAList.lookup (snd (initialKnown known km file)) k = Some m))"
proof -
  have eq: "initialKnown known km file = mergeKnownState known km (Some (ic, im))"
    by (simp add: initialKnown_def readable)
  have wm: "numOr0 (fst (mergeKnownState known km (Some (ic, im)))) k
              = max (numOr0 known k) (numOr0 ic k)"
    using nonneg
    by (auto simp: numOr0_def lookup_mergeKnownState_conversations split: option.splits)
  have mt: "\<forall>cur. DAList.lookup km k = Some cur
             \<and> DAList.lookup (snd (mergeKnownState known km (Some (ic, im)))) k \<noteq> Some cur \<longrightarrow>
         (\<exists>m. DAList.lookup im k = Some m \<and> m_update_time m \<ge> m_update_time cur
              \<and> DAList.lookup (snd (mergeKnownState known km (Some (ic, im)))) k = Some m)"
    by (auto simp: lookup_mergeKnownState_meta mergedMetaEntry_def max_def
        split: option.splits if_splits)
  show ?thesis
    unfolding eq using wm mt by simp
qed

theorem initialKnown_merge_witness:
  "readIndex (Some demoIndex)
     = Some (DAList.update ''A'' 200 DAList.empty, DAList.update ''A'' (hd demoIndex) DAList.empty)
   \<and> numOr0 (fst (initialKnown (conversations demoState) DAList.empty (Some demoIndex))) ''A'' = 200
   \<and> numOr0 (conversations demoState) ''A'' = 100"
proof -
  have r: "readIndex (Some demoIndex)
     = Some (DAList.update ''A'' 200 DAList.empty, DAList.update ''A'' (hd demoIndex) DAList.empty)"
    by (simp add: readIndex_def demoIndex_def)
  have n: "\<forall>k v. DAList.lookup (conversations demoState) k = Some v \<longrightarrow> 0 \<le> v"
    by (simp add: demoState_def DAList.lookup_update)
  have v: "numOr0 (conversations demoState) ''A'' = 100"
    by (simp add: demoState_def numOr0_def)
  have w: "numOr0 (DAList.update ''A'' (200::rat) DAList.empty) ''A'' = 200"
    by (simp add: numOr0_def)
  from initialKnown_merge [OF r n, of DAList.empty "''A''"]
  have "numOr0 (fst (initialKnown (conversations demoState) DAList.empty (Some demoIndex))) ''A''
          = max (numOr0 (conversations demoState) ''A'')
                (numOr0 (DAList.update ''A'' 200 DAList.empty) ''A'')"
    by blast
  with r v w show ?thesis by simp
qed

section \<open>Watermarks in the service worker\<close>

lemma lookup_pruneTo_aux:
  "DAList.lookup (foldl (\<lambda>pruned cid. case DAList.lookup m cid of
                             None \<Rightarrow> pruned
                           | Some v \<Rightarrow> DAList.update cid v pruned) acc ids) k =
     (if k \<in> set ids \<and> DAList.lookup m k \<noteq> None then DAList.lookup m k else DAList.lookup acc k)"
  by (induction ids arbitrary: acc) (auto simp: DAList.lookup_update split: option.splits)

lemma lookup_pruneTo:
  "DAList.lookup (pruneTo ids m) k = (if k \<in> set ids then DAList.lookup m k else None)"
  by (auto simp: pruneTo_def lookup_pruneTo_aux)

lemma numOr0_storeConversation:
  "numOr0 (conversations (nextState (storeConversation e st cid title ct ut run))) k =
     (if k = cid then max (numOr0 (conversations (nextState run)) cid) ut
      else numOr0 (conversations (nextState run)) k)"
  by (simp add: storeConversation_def Let_def numOr0_def DAList.lookup_update)

lemma has_storeConversation:
  "has (conversations (nextState (storeConversation e st cid title ct ut run))) k =
     (k = cid \<or> has (conversations (nextState run)) k)"
  by (auto simp add: storeConversation_def Let_def has_def DAList.lookup_update split: option.splits)

lemma outcome_storeConversation [simp]:
  "bg_outcome (storeConversation e st cid title ct ut run) = bg_outcome run"
  by (simp add: storeConversation_def Let_def)

lemma storeConversation_mono:
  "numOr0 (conversations (nextState run)) k
     \<le> numOr0 (conversations (nextState (storeConversation e st cid title ct ut run))) k"
  by (simp add: numOr0_storeConversation)

lemma numOr0_pruneTo:
  "has (pruneTo ids m) k \<Longrightarrow> numOr0 (pruneTo ids m) k = numOr0 m k"
  by (simp add: has_def numOr0_def lookup_pruneTo split: if_splits)

lemma onMessage_watermark_kept:
  "has (conversations (nextState (onMessage e m run))) k \<Longrightarrow>
   numOr0 (conversations (nextState run)) k
     \<le> numOr0 (conversations (nextState (onMessage e m run))) k"
  by (cases m)
     (auto simp: storeConversation_mono Let_def numOr0_pruneTo
           split: option.splits if_splits)

lemma onMessage_watermark_running:
  "bg_outcome (onMessage e m run) = Running \<Longrightarrow>
   numOr0 (conversations (nextState run)) k
     \<le> numOr0 (conversations (nextState (onMessage e m run))) k"
  by (cases m)
     (auto simp: storeConversation_mono Let_def split: option.splits if_splits)

lemma onMessage_has_kept:
  "has (conversations (nextState run)) k \<Longrightarrow>
   \<not> has (conversations (nextState (onMessage e m run))) k \<Longrightarrow>
   \<exists>u s r. m = SyncComplete True u s r"
  by (cases m)
     (auto simp: has_storeConversation Let_def split: option.splits if_splits)

lemma runMessages_settled: "bg_outcome run \<noteq> Running \<Longrightarrow> runMessages e ms run = run"
  by (cases ms) auto

lemma runMessages_watermark:
  "has (conversations (nextState (runMessages e ms run))) k \<Longrightarrow>
   numOr0 (conversations (nextState run)) k
     \<le> numOr0 (conversations (nextState (runMessages e ms run))) k"
proof (induction ms arbitrary: run)
  case Nil
  then show ?case by simp
next
  case (Cons m ms)
  show ?case
  proof (cases "bg_outcome run = Running")
    case False
    then show ?thesis by simp
  next
    case True
    show ?thesis
    proof (cases "bg_outcome (onMessage e m run) = Running")
      case False
      then have "runMessages e (m # ms) run = onMessage e m run"
        using True by (simp add: runMessages_settled)
      then show ?thesis using Cons.prems onMessage_watermark_kept by metis
    next
      case r: True
      have eq: "runMessages e (m # ms) run = runMessages e ms (onMessage e m run)"
        using True by simp
      from Cons.prems have "has (conversations (nextState (runMessages e ms (onMessage e m run)))) k"
        unfolding eq .
      from Cons.IH [OF this] onMessage_watermark_running [OF r, of k]
      show ?thesis unfolding eq by simp
    qed
  qed
qed

lemma runMessages_has_kept:
  "has (conversations (nextState run)) k \<Longrightarrow>
   \<not> has (conversations (nextState (runMessages e ms run))) k \<Longrightarrow>
   \<exists>u s r. SyncComplete True u s r \<in> set ms"
proof (induction ms arbitrary: run)
  case Nil
  then show ?case by simp
next
  case (Cons m ms)
  show ?case
  proof (cases "bg_outcome run = Running")
    case False
    with Cons.prems show ?thesis by simp
  next
    case True
    then have eq: "runMessages e (m # ms) run = runMessages e ms (onMessage e m run)" by simp
    show ?thesis
    proof (cases "has (conversations (nextState (onMessage e m run))) k")
      case False
      from onMessage_has_kept [OF Cons.prems(1) False] show ?thesis by auto
    next
      case h: True
      from Cons.prems(2) have "\<not> has (conversations (nextState (runMessages e ms (onMessage e m run)))) k"
        unfolding eq .
      from Cons.IH [OF h this] show ?thesis by auto
    qed
  qed
qed

lemma conversations_setSyncState:
  "conversations (setSyncState e stored state) =
     (if persist e = SaveFailed then conversations stored else conversations state)"
  by (cases "persist e") (simp_all add: setSyncState_def)

text \<open>
  C3. For every id and every run of the service worker (any sequence of port messages,
  whatever \<open>setSyncState\<close> then manages to write), the watermark stored afterwards is at
  least the watermark stored before, for every id still in the known state; an id leaves
  the known state only through the pruning of a completed full pass. Every conversation
  and conversation-skip message stores the maximum of the existing value and the time it
  carries, and a conversation-error message leaves the watermarks alone.
\<close>

theorem watermark_monotone:
  "(has (conversations (stateAfter e stored ms)) k \<longrightarrow>
      numOr0 (conversations stored) k \<le> numOr0 (conversations (stateAfter e stored ms)) k)
   \<and> (has (conversations stored) k \<and> \<not> has (conversations (stateAfter e stored ms)) k \<longrightarrow>
        (\<exists>u s r. SyncComplete True u s r \<in> set ms))
   \<and> numOr0 (conversations (nextState (onMessage e (ConversationMsg cid title ct ut) run))) cid
        = max (numOr0 (conversations (nextState run)) cid) ut
   \<and> numOr0 (conversations (nextState (onMessage e (ConversationSkip cid title ct ut) run))) cid
        = max (numOr0 (conversations (nextState run)) cid) ut
   \<and> conversations (nextState (onMessage e (ConversationError cid err) run))
        = conversations (nextState run)"
proof -
  have init: "conversations (nextState (startRun stored)) = conversations stored"
    by (simp add: startRun_def)
  have a: "has (conversations (stateAfter e stored ms)) k \<longrightarrow>
      numOr0 (conversations stored) k \<le> numOr0 (conversations (stateAfter e stored ms)) k"
    using runMessages_watermark [of e ms "startRun stored" k]
    by (simp add: stateAfter_def conversations_setSyncState init)
  have b: "has (conversations stored) k \<and> \<not> has (conversations (stateAfter e stored ms)) k \<longrightarrow>
        (\<exists>u s r. SyncComplete True u s r \<in> set ms)"
    using runMessages_has_kept [of "startRun stored" k e ms]
    by (simp add: stateAfter_def conversations_setSyncState init split: if_splits)
  show ?thesis
    using a b by (simp add: numOr0_storeConversation)
qed

theorem watermark_monotone_witness:
  "has (conversations (stateAfter demoEnv demoState [ConversationSkip ''A'' ''a'' 1 50])) ''A''
   \<and> numOr0 (conversations demoState) ''A'' = 100
   \<and> numOr0 (conversations (stateAfter demoEnv demoState [ConversationSkip ''A'' ''a'' 1 50])) ''A'' = 100
   \<and> numOr0 (conversations demoState) ''A''
        \<le> numOr0 (conversations (stateAfter demoEnv demoState [ConversationSkip ''A'' ''a'' 1 50])) ''A''"
proof -
  have h: "has (conversations (stateAfter demoEnv demoState [ConversationSkip ''A'' ''a'' 1 50])) ''A''"
    by code_simp
  have v: "numOr0 (conversations demoState) ''A'' = 100"
    by code_simp
  have w: "numOr0 (conversations (stateAfter demoEnv demoState [ConversationSkip ''A'' ''a'' 1 50])) ''A'' = 100"
    by code_simp
  from watermark_monotone [of demoEnv demoState "[ConversationSkip ''A'' ''a'' 1 50]" "''A''"] h v w
  show ?thesis by simp
qed

lemma onMessage_nonneg:
  "\<forall>k v. DAList.lookup (conversations (nextState run)) k = Some v \<longrightarrow> 0 \<le> v \<Longrightarrow>
   DAList.lookup (conversations (nextState (onMessage e m run))) k = Some v \<Longrightarrow> 0 \<le> v"
  by (cases m)
     (auto simp: storeConversation_def Let_def numOr0_def DAList.lookup_update lookup_pruneTo
           le_max_iff_disj split: option.splits if_splits)

lemma runMessages_nonneg:
  "\<forall>k v. DAList.lookup (conversations (nextState run)) k = Some v \<longrightarrow> 0 \<le> v \<Longrightarrow>
   DAList.lookup (conversations (nextState (runMessages e ms run))) k = Some v \<Longrightarrow> 0 \<le> v"
proof (induction ms arbitrary: run k v)
  case Nil
  then show ?case by simp
next
  case (Cons m ms)
  show ?case
  proof (cases "bg_outcome run = Running")
    case False
    with Cons.prems show ?thesis by simp
  next
    case True
    have "\<forall>k v. DAList.lookup (conversations (nextState (onMessage e m run))) k = Some v \<longrightarrow> 0 \<le> v"
      using onMessage_nonneg [OF Cons.prems(1)] by blast
    from Cons.IH [OF this] Cons.prems(2) True show ?thesis by simp
  qed
qed

section \<open>Cursor checkpoints\<close>

lemma cursorsOf_append [simp]: "cursorsOf (xs @ ys) = cursorsOf xs @ cursorsOf ys"
  by (simp add: cursorsOf_def List.map_filter_def)

lemma cursorsOf_single [simp]:
  "cursorsOf [SyncProgress (Some c)] = [c]"
  by (simp add: cursorsOf_def List.map_filter_def)

lemma maybeAdvanceLoop_fields [simp]:
  "pageStates (maybeAdvanceLoop s) = pageStates s"
  "offset (maybeAdvanceLoop s) = offset s"
  "limit (maybeAdvanceLoop s) = limit s"
  by (induction s rule: maybeAdvanceLoop.induct; subst maybeAdvanceLoop.simps; simp)+

lemma maybeAdvanceLoop_inv: "cursorInv s \<Longrightarrow> cursorInv (maybeAdvanceLoop s)"
proof (induction s rule: maybeAdvanceLoop.induct)
  case (1 s)
  show ?case
  proof (cases "nextCursorIndex s < length (pageStates s) \<and> ps_done (pageStates s ! nextCursorIndex s)")
    case False
    have "maybeAdvanceLoop s = s"
      using False by (subst maybeAdvanceLoop.simps) auto
    then show ?thesis using "1.prems" by simp
  next
    case True
    let ?s' = "s\<lparr>outbox := outbox s @
                   [SyncProgress (Some (ps_nextOffset (pageStates s ! nextCursorIndex s),
                                        ps_limit (pageStates s ! nextCursorIndex s)))],
                nextCursorIndex := nextCursorIndex s + 1\<rparr>"
    have "cursorInv ?s'"
      using "1.prems" True
      by (auto simp: cursorInv_def take_Suc_conv_app_nth cursorOfPage_def less_Suc_eq)
    have "maybeAdvanceLoop s = maybeAdvanceLoop ?s'"
      using True by (subst maybeAdvanceLoop.simps) simp
    with "1.IH" [OF True \<open>cursorInv ?s'\<close>] show ?thesis by simp
  qed
qed

lemma maybeAdvanceCursor_inv: "cursorInv s \<Longrightarrow> cursorInv (maybeAdvanceCursor s)"
  by (simp add: maybeAdvanceCursor_def maybeAdvanceLoop_inv)

lemma maybeAdvanceCursor_fields [simp]:
  "pageStates (maybeAdvanceCursor s) = pageStates s"
  "offset (maybeAdvanceCursor s) = offset s"
  "limit (maybeAdvanceCursor s) = limit s"
  by (simp_all add: maybeAdvanceCursor_def)

lemma cursorInv_update_page:
  assumes "cursorInv s" and "i < length (pageStates s)"
    and "cursorOfPage p = cursorOfPage (pageStates s ! i)"
    and "ps_done (pageStates s ! i) \<longrightarrow> ps_done p"
  shows "cursorInv (s\<lparr>pageStates := (pageStates s)[i := p]\<rparr>)"
proof -
  have "map cursorOfPage ((pageStates s)[i := p]) = map cursorOfPage (pageStates s)"
    using assms(2,3) by (simp add: map_update list_update_same_conv)
  then show ?thesis
    using assms by (auto simp: cursorInv_def nth_list_update)
qed

lemma markPageItemDone_inv: "cursorInv s \<Longrightarrow> cursorInv (markPageItemDone i s)"
  by (auto simp: markPageItemDone_def Let_def cursorOfPage_def
      intro!: maybeAdvanceCursor_inv cursorInv_update_page)

lemma openPage_inv: "cursorInv s \<Longrightarrow> cursorInv (openPage n s)"
  by (auto simp: cursorInv_def openPage_def nth_append)


lemma pageStates_markPageItemDone:
  "pageStates (markPageItemDone j s) =
     (if j < length (pageStates s) \<and> \<not> ps_done (pageStates s ! j)
      then (pageStates s)[j :=
             (if ps_remaining (pageStates s ! j) - 1 \<le> 0
              then (pageStates s ! j)\<lparr>ps_remaining := ps_remaining (pageStates s ! j) - 1,
                                       ps_done := True\<rparr>
              else (pageStates s ! j)\<lparr>ps_remaining := ps_remaining (pageStates s ! j) - 1\<rparr>)]
      else pageStates s)"
  by (auto simp: markPageItemDone_def Let_def)

lemma offset_markPageItemDone [simp]: "offset (markPageItemDone j s) = offset s"
  by (simp add: markPageItemDone_def Let_def)

lemma listedPages_snoc [simp]:
  "listedPages (evs @ [PageListed n]) = listedPages evs @ [n]"
  "listedPages (evs @ [ItemDone j]) = listedPages evs"
  by (simp_all add: listedPages_def List.map_filter_def)

lemma cursorStep_pageInv: "pageInv evs s \<Longrightarrow> pageInv (evs @ [ev]) (cursorStep s ev)"
proof (cases ev)
  case (PageListed n)
  assume "pageInv evs s"
  then show ?thesis
    by (auto simp: PageListed pageInv_def cursorStep_def openPage_def nth_append)
next
  case (ItemDone j)
  assume "pageInv evs s"
  then show ?thesis
    by (auto simp: ItemDone pageInv_def cursorStep_def pageStates_markPageItemDone
        nth_list_update)
qed

lemma cursorStep_offsetInv: "offsetInv s \<Longrightarrow> offsetInv (cursorStep s ev)"
proof (cases ev)
  case (PageListed n)
  assume "offsetInv s"
  then show ?thesis
    by (fastforce simp: PageListed offsetInv_def cursorStep_def openPage_def sorted_append)
next
  case (ItemDone j)
  assume a: "offsetInv s"
  have m: "map ps_nextOffset (pageStates (markPageItemDone j s)) = map ps_nextOffset (pageStates s)"
    by (simp add: pageStates_markPageItemDone map_update list_update_same_conv)
  show ?thesis
    using a unfolding ItemDone offsetInv_def cursorStep_def pageEvent.case m by simp
qed

lemma cursorStep_cursorInv: "cursorInv s \<Longrightarrow> cursorInv (cursorStep s ev)"
proof (cases ev)
  case (PageListed n)
  assume "cursorInv s"
  from openPage_inv [OF this, of n] show ?thesis
    by (simp add: PageListed cursorStep_def cursorInv_def)
next
  case (ItemDone j)
  assume "cursorInv s"
  then show ?thesis by (simp add: ItemDone cursorStep_def markPageItemDone_inv)
qed

lemma foldl_cursorStep_invs:
  "cursorInv s0 \<Longrightarrow> offsetInv s0 \<Longrightarrow> pageInv [] s0 \<Longrightarrow>
   cursorInv (foldl cursorStep s0 evs) \<and> offsetInv (foldl cursorStep s0 evs)
   \<and> pageInv evs (foldl cursorStep s0 evs)"
  by (induction evs rule: rev_induct)
     (simp_all add: cursorStep_cursorInv cursorStep_offsetInv cursorStep_pageInv)

lemma forceFull_markPageItemDone_aux [simp]:
  "forceFullInventory (maybeAdvanceLoop s) = forceFullInventory s"
  by (induction s rule: maybeAdvanceLoop.induct) (subst maybeAdvanceLoop.simps, simp)

lemma partial_no_cursor:
  "\<not> forceFullInventory s \<Longrightarrow>
   \<not> forceFullInventory (cursorStep s ev) \<and> nextCursorIndex (cursorStep s ev) = nextCursorIndex s"
  by (cases ev)
     (auto simp: cursorStep_def openPage_def markPageItemDone_def maybeAdvanceCursor_def Let_def)

lemma partial_no_cursor_foldl:
  "\<not> forceFullInventory s \<Longrightarrow>
   \<not> forceFullInventory (foldl cursorStep s evs)
   \<and> nextCursorIndex (foldl cursorStep s evs) = nextCursorIndex s"
  by (induction evs rule: rev_induct) (simp_all add: partial_no_cursor)

text \<open>
  C8. Whatever the order in which pages are listed and items complete, the cursors posted
  to the service worker are the next offsets of the first \<open>nextCursorIndex\<close> pages, in
  listing order: a page's cursor is posted only when as many of its items have reached a
  terminal state as the page contributed, and the same holds for every earlier page. The
  posted offsets are sorted, a partial pass posts none, and the service worker in full
  inventory mode stores the offset of each cursor it receives.
\<close>

theorem cursor_advances_in_order:
  assumes "pageStates s0 = []" and "nextCursorIndex s0 = 0" and "cursorsOf (outbox s0) = []"
  shows "cursorsOf (outbox (foldl cursorStep s0 evs))
           = take (nextCursorIndex (foldl cursorStep s0 evs))
               (map cursorOfPage (pageStates (foldl cursorStep s0 evs)))
    \<and> (\<forall>i < nextCursorIndex (foldl cursorStep s0 evs).
          i < length (listedPages evs)
          \<and> listedPages evs ! i \<le> count_list evs (ItemDone i))
    \<and> sorted (map fst (cursorsOf (outbox (foldl cursorStep s0 evs))))
    \<and> (\<not> forceFullInventory s0 \<longrightarrow> cursorsOf (outbox (foldl cursorStep s0 evs)) = [])
    \<and> (fullInventoryMode run \<longrightarrow>
          map_option c_offset
            (inventoryCursor (nextState (onMessage e (SyncProgress (Some (off, lm))) run)))
          = Some off)"
proof -
  let ?s = "foldl cursorStep s0 evs"
  have c0: "cursorInv s0" using assms by (simp add: cursorInv_def)
  have o0: "offsetInv s0" using assms by (simp add: offsetInv_def)
  have p0: "pageInv [] s0" using assms by (simp add: pageInv_def listedPages_def List.map_filter_def)
  from foldl_cursorStep_invs [OF c0 o0 p0, of evs]
  have c: "cursorInv ?s" and ofs: "offsetInv ?s" and p: "pageInv evs ?s" by simp_all
  have a: "cursorsOf (outbox ?s) = take (nextCursorIndex ?s) (map cursorOfPage (pageStates ?s))"
    using c by (simp add: cursorInv_def)
  have b: "\<forall>i < nextCursorIndex ?s.
          i < length (listedPages evs) \<and> listedPages evs ! i \<le> count_list evs (ItemDone i)"
  proof (intro allI impI)
    fix i assume i: "i < nextCursorIndex ?s"
    with c have len: "i < length (pageStates ?s)" and d: "ps_done (pageStates ?s ! i)"
      by (auto simp: cursorInv_def)
    from p len d have "int (listedPages evs ! i) - int (count_list evs (ItemDone i)) \<le> 0"
      by (fastforce simp: pageInv_def)
    moreover from p len have "i < length (listedPages evs)" by (simp add: pageInv_def)
    ultimately show "i < length (listedPages evs)
          \<and> listedPages evs ! i \<le> count_list evs (ItemDone i)" by simp
  qed
  have "map fst (cursorsOf (outbox ?s))
          = take (nextCursorIndex ?s) (map ps_nextOffset (pageStates ?s))"
    unfolding a by (simp add: take_map cursorOfPage_def comp_def)
  moreover have "sorted (take (nextCursorIndex ?s) (map ps_nextOffset (pageStates ?s)))"
    using ofs unfolding offsetInv_def by (blast intro: sorted_wrt_take)
  ultimately have srt: "sorted (map fst (cursorsOf (outbox ?s)))" by simp
  have d: "\<not> forceFullInventory s0 \<longrightarrow> cursorsOf (outbox ?s) = []"
    using partial_no_cursor_foldl [of s0 evs] assms(2) a by auto
  show ?thesis using a b srt d by simp
qed

theorem cursor_advances_in_order_witness:
  "cursorsOf (outbox (foldl cursorStep demoCs
       [PageListed 2, PageListed 1, ItemDone 1, ItemDone 0, ItemDone 0])) = [(2, 100), (3, 100)]
   \<and> cursorsOf (outbox (foldl cursorStep demoCs
       [PageListed 2, PageListed 1, ItemDone 1, ItemDone 0])) = []
   \<and> nextCursorIndex (foldl cursorStep demoCs
       [PageListed 2, PageListed 1, ItemDone 1, ItemDone 0, ItemDone 0]) = 2
   \<and> sorted (map fst (cursorsOf (outbox (foldl cursorStep demoCs
       [PageListed 2, PageListed 1, ItemDone 1, ItemDone 0, ItemDone 0]))))"
proof -
  have i: "pageStates demoCs = []" "nextCursorIndex demoCs = 0" "cursorsOf (outbox demoCs) = []"
    by (simp_all add: demoCs_def initialCs_def cursorsOf_def List.map_filter_def)
  have v1: "cursorsOf (outbox (foldl cursorStep demoCs
       [PageListed 2, PageListed 1, ItemDone 1, ItemDone 0, ItemDone 0])) = [(2, 100), (3, 100)]"
    by code_simp
  have v2: "cursorsOf (outbox (foldl cursorStep demoCs
       [PageListed 2, PageListed 1, ItemDone 1, ItemDone 0])) = []"
    by code_simp
  have v3: "nextCursorIndex (foldl cursorStep demoCs
       [PageListed 2, PageListed 1, ItemDone 1, ItemDone 0, ItemDone 0]) = 2"
    by code_simp
  from cursor_advances_in_order [OF i, of "[PageListed 2, PageListed 1, ItemDone 1, ItemDone 0, ItemDone 0]"]
    v1 v2 v3
  show ?thesis by simp
qed

section \<open>The listing loop\<close>

lemma maybeAdvanceLoop_frame:
  "\<exists>ob n. maybeAdvanceLoop s = s\<lparr>outbox := ob, nextCursorIndex := n\<rparr>"
proof (induction s rule: maybeAdvanceLoop.induct)
  case (1 s)
  show ?case
  proof (cases "nextCursorIndex s < length (pageStates s) \<and> ps_done (pageStates s ! nextCursorIndex s)")
    case False
    then have "maybeAdvanceLoop s = s" by (subst maybeAdvanceLoop.simps) auto
    then have "maybeAdvanceLoop s = s\<lparr>outbox := outbox s, nextCursorIndex := nextCursorIndex s\<rparr>"
      by simp
    then show ?thesis by blast
  next
    case True
    let ?s' = "s\<lparr>outbox := outbox s @
                   [SyncProgress (Some (ps_nextOffset (pageStates s ! nextCursorIndex s),
                                        ps_limit (pageStates s ! nextCursorIndex s)))],
                nextCursorIndex := nextCursorIndex s + 1\<rparr>"
    from "1.IH" [OF True] obtain ob n where "maybeAdvanceLoop ?s' = ?s'\<lparr>outbox := ob, nextCursorIndex := n\<rparr>"
      by blast
    moreover have "maybeAdvanceLoop s = maybeAdvanceLoop ?s'"
      using True by (subst maybeAdvanceLoop.simps) simp
    ultimately have "maybeAdvanceLoop s = s\<lparr>outbox := ob, nextCursorIndex := n\<rparr>" by simp
    then show ?thesis by blast
  qed
qed

lemma markPageItemDone_frame:
  "\<exists>ps ob n. markPageItemDone i s = s\<lparr>pageStates := ps, outbox := ob, nextCursorIndex := n\<rparr>"
proof -
  have triv: "\<And>t. \<exists>ps ob n. (t::cs) = t\<lparr>pageStates := ps, outbox := ob, nextCursorIndex := n\<rparr>"
  proof -
    fix t :: cs
    have "t = t\<lparr>pageStates := pageStates t, outbox := outbox t, nextCursorIndex := nextCursorIndex t\<rparr>"
      by simp
    then show "\<exists>ps ob n. t = t\<lparr>pageStates := ps, outbox := ob, nextCursorIndex := n\<rparr>" by blast
  qed
  show ?thesis
  proof (cases "i < length (pageStates s) \<and> \<not> ps_done (pageStates s ! i)
                \<and> ps_remaining (pageStates s ! i) - 1 \<le> 0")
    case True
    let ?t = "s\<lparr>pageStates := (pageStates s)[i := (pageStates s ! i)
                 \<lparr>ps_remaining := ps_remaining (pageStates s ! i) - 1, ps_done := True\<rparr>]\<rparr>"
    have m: "markPageItemDone i s = maybeAdvanceCursor ?t"
      using True by (simp add: markPageItemDone_def Let_def)
    from maybeAdvanceLoop_frame [of ?t] obtain ob n
      where "maybeAdvanceLoop ?t = ?t\<lparr>outbox := ob, nextCursorIndex := n\<rparr>" by blast
    then have "maybeAdvanceCursor ?t = s\<lparr>pageStates := pageStates ?t, outbox := ob, nextCursorIndex := n\<rparr>
               \<or> maybeAdvanceCursor ?t = s\<lparr>pageStates := pageStates ?t, outbox := outbox s,
                                              nextCursorIndex := nextCursorIndex s\<rparr>"
      by (simp add: maybeAdvanceCursor_def)
    with m show ?thesis by metis
  next
    case False
    then have "markPageItemDone i s = s
               \<or> markPageItemDone i s = s\<lparr>pageStates := (pageStates s)[i := (pageStates s ! i)
                     \<lparr>ps_remaining := ps_remaining (pageStates s ! i) - 1\<rparr>],
                     outbox := outbox s, nextCursorIndex := nextCursorIndex s\<rparr>"
      by (auto simp: markPageItemDone_def Let_def)
    with triv [of s] show ?thesis by metis
  qed
qed

lemma markPageItemDone_same [simp]:
  "forceFullInventory (markPageItemDone i s) = forceFullInventory s"
  "updatedCount (markPageItemDone i s) = updatedCount s"
  "skippedCount (markPageItemDone i s) = skippedCount s"
  "errorCount (markPageItemDone i s) = errorCount s"
  "didFullInventory (markPageItemDone i s) = didFullInventory s"
  "listedCount (markPageItemDone i s) = listedCount s"
  "limit (markPageItemDone i s) = limit s"
  "metaMap (markPageItemDone i s) = metaMap s"
  "currentIds (markPageItemDone i s) = currentIds s"
  "queue (markPageItemDone i s) = queue s"
  "requests (markPageItemDone i s) = requests s"
  "files (markPageItemDone i s) = files s"
  "indexFile (markPageItemDone i s) = indexFile s"
  "deleteCalls (markPageItemDone i s) = deleteCalls s"
  "thrown (markPageItemDone i s) = thrown s"
  using markPageItemDone_frame [of i s] by auto


lemma classifyItem_same [simp]:
  "forceFullInventory (classifyItem e known i s it) = forceFullInventory s"
  "updatedCount (classifyItem e known i s it) = updatedCount s"
  "errorCount (classifyItem e known i s it) = errorCount s"
  "didFullInventory (classifyItem e known i s it) = didFullInventory s"
  "listedCount (classifyItem e known i s it) = listedCount s"
  "offset (classifyItem e known i s it) = offset s"
  "limit (classifyItem e known i s it) = limit s"
  "requests (classifyItem e known i s it) = requests s"
  "files (classifyItem e known i s it) = files s"
  "indexFile (classifyItem e known i s it) = indexFile s"
  "deleteCalls (classifyItem e known i s it) = deleteCalls s"
  "thrown (classifyItem e known i s it) = thrown s"
  by (simp_all add: classifyItem_def Let_def)

lemma foldl_classifyItem_same [simp]:
  "forceFullInventory (foldl (classifyItem e known i) s items) = forceFullInventory s"
  "updatedCount (foldl (classifyItem e known i) s items) = updatedCount s"
  "errorCount (foldl (classifyItem e known i) s items) = errorCount s"
  "didFullInventory (foldl (classifyItem e known i) s items) = didFullInventory s"
  "listedCount (foldl (classifyItem e known i) s items) = listedCount s"
  "offset (foldl (classifyItem e known i) s items) = offset s"
  "limit (foldl (classifyItem e known i) s items) = limit s"
  "requests (foldl (classifyItem e known i) s items) = requests s"
  "files (foldl (classifyItem e known i) s items) = files s"
  "indexFile (foldl (classifyItem e known i) s items) = indexFile s"
  "deleteCalls (foldl (classifyItem e known i) s items) = deleteCalls s"
  "thrown (foldl (classifyItem e known i) s items) = thrown s"
  by (induction items arbitrary: s; simp)+

lemma listPage_same [simp]:
  "forceFullInventory (listPage e known w pg s) = forceFullInventory s"
  "updatedCount (listPage e known w pg s) = updatedCount s"
  "errorCount (listPage e known w pg s) = errorCount s"
  "listedCount (listPage e known w pg s) = listedCount s"
  "limit (listPage e known w pg s) = limit s"
  "requests (listPage e known w pg s) = requests s"
  "files (listPage e known w pg s) = files s"
  "indexFile (listPage e known w pg s) = indexFile s"
  "deleteCalls (listPage e known w pg s) = deleteCalls s"
  "thrown (listPage e known w pg s) = thrown s"
  by (simp_all add: listPage_def Let_def openPage_def)

lemma didFullInventory_listPage:
  "didFullInventory (listPage e known w pg s)
     = (didFullInventory s \<and> \<not> stopForTime w (p_pageMinUpdate pg))"
  by (simp add: listPage_def Let_def openPage_def)

lemma queue_classifyItem:
  "queue (classifyItem e known i s it) =
     queue s @ map (\<lambda>it. (it, i)) (pendingItems e known [it])"
  by (simp add: classifyItem_def Let_def pendingItems_def)

lemma queue_foldl_classifyItem:
  "queue (foldl (classifyItem e known i) s items) =
     queue s @ map (\<lambda>it. (it, i)) (pendingItems e known items)"
proof (induction items arbitrary: s)
  case Nil
  then show ?case by (simp add: pendingItems_def)
next
  case (Cons it items)
  show ?case
    by (simp add: Cons.IH queue_classifyItem) (simp add: pendingItems_def)
qed

lemma queue_listPage:
  "queue (listPage e known w pg s) =
     queue s @ map (\<lambda>it. (it, length (pageStates s))) (pendingItems e known (p_items pg))"
  by (simp add: listPage_def Let_def queue_foldl_classifyItem openPage_def)

lemma outbox_markPageItemDone_prefix:
  "\<exists>ms. outbox (markPageItemDone i s) = outbox s @ ms
        \<and> (\<forall>m \<in> set ms. \<exists>c. m = SyncProgress (Some c))"
proof -
  have loop: "\<And>t. \<exists>ms. outbox (maybeAdvanceLoop t) = outbox t @ ms
        \<and> (\<forall>m \<in> set ms. \<exists>c. m = SyncProgress (Some c))"
  proof -
    fix t show "\<exists>ms. outbox (maybeAdvanceLoop t) = outbox t @ ms
        \<and> (\<forall>m \<in> set ms. \<exists>c. m = SyncProgress (Some c))"
    proof (induction t rule: maybeAdvanceLoop.induct)
      case (1 s)
      show ?case
      proof (cases "nextCursorIndex s < length (pageStates s) \<and> ps_done (pageStates s ! nextCursorIndex s)")
        case False
        then have "maybeAdvanceLoop s = s" by (subst maybeAdvanceLoop.simps) auto
        then show ?thesis by simp
      next
        case True
        let ?m = "SyncProgress (Some (ps_nextOffset (pageStates s ! nextCursorIndex s),
                                        ps_limit (pageStates s ! nextCursorIndex s)))"
        let ?s' = "s\<lparr>outbox := outbox s @ [?m], nextCursorIndex := nextCursorIndex s + 1\<rparr>"
        from "1.IH" [OF True] obtain ms where ms: "outbox (maybeAdvanceLoop ?s') = outbox ?s' @ ms"
          "\<forall>m \<in> set ms. \<exists>c. m = SyncProgress (Some c)" by blast
        have "maybeAdvanceLoop s = maybeAdvanceLoop ?s'"
          using True by (subst maybeAdvanceLoop.simps) simp
        with ms have "outbox (maybeAdvanceLoop s) = outbox s @ (?m # ms)
              \<and> (\<forall>m \<in> set (?m # ms). \<exists>c. m = SyncProgress (Some c))" by simp
        then show ?thesis by blast
      qed
    qed
  qed
  have adv: "\<And>t. \<exists>ms. outbox (maybeAdvanceCursor t) = outbox t @ ms
        \<and> (\<forall>m \<in> set ms. \<exists>c. m = SyncProgress (Some c))"
    using loop by (simp add: maybeAdvanceCursor_def)
  show ?thesis
    using adv [of "s\<lparr>pageStates := (pageStates s)[i := (pageStates s ! i)
                 \<lparr>ps_remaining := ps_remaining (pageStates s ! i) - 1, ps_done := True\<rparr>]\<rparr>"]
    by (auto simp: markPageItemDone_def Let_def)
qed

lemma outbox_classifyItem:
  "\<exists>ms. outbox (classifyItem e known i s it) = outbox s @ ms
     \<and> (\<forall>m \<in> set ms. (\<exists>c. m = SyncProgress (Some c)) \<or> (\<exists>t c u. m = ConversationSkip (item_id it) t c u))
     \<and> (itemUpdateTime e it \<le> numOr0 known (item_id it) \<longrightarrow>
          (\<exists>t c u. ConversationSkip (item_id it) t c u \<in> set ms))"
proof (cases "itemUpdateTime e it \<le> numOr0 known (item_id it)")
  case False
  then have "outbox (classifyItem e known i s it) = outbox s @ []"
    by (simp add: classifyItem_def Let_def)
  with False show ?thesis by (metis empty_iff empty_set)
next
  case True
  then obtain t where t: "classifyItem e known i s it = markPageItemDone i t"
     and ot: "\<exists>tt c u. outbox t = outbox s @ [ConversationSkip (item_id it) tt c u]"
    by (simp add: classifyItem_def Let_def)
  from ot obtain tt c u where o: "outbox t = outbox s @ [ConversationSkip (item_id it) tt c u]" by blast
  from outbox_markPageItemDone_prefix [of i t] obtain ms where
    ms: "outbox (markPageItemDone i t) = outbox t @ ms" "\<forall>m \<in> set ms. \<exists>c. m = SyncProgress (Some c)"
    by blast
  have "outbox (classifyItem e known i s it) = outbox s @ (ConversationSkip (item_id it) tt c u # ms)"
    using t o ms by simp
  moreover have "\<forall>m \<in> set (ConversationSkip (item_id it) tt c u # ms).
      (\<exists>c. m = SyncProgress (Some c)) \<or> (\<exists>t c u. m = ConversationSkip (item_id it) t c u)"
    using ms(2) by auto
  moreover have "\<exists>t c' u'. ConversationSkip (item_id it) t c' u' \<in> set (ConversationSkip (item_id it) tt c u # ms)"
    by auto
  ultimately show ?thesis by blast
qed

lemma outbox_foldl_classifyItem:
  "\<exists>ms. outbox (foldl (classifyItem e known i) s items) = outbox s @ ms
     \<and> (\<forall>m \<in> set ms. listingMessage m)
     \<and> (\<forall>it \<in> set items. itemUpdateTime e it \<le> numOr0 known (item_id it) \<longrightarrow>
          (\<exists>t c u. ConversationSkip (item_id it) t c u \<in> set ms))"
proof (induction items arbitrary: s)
  case Nil
  then show ?case by simp
next
  case (Cons it items)
  from outbox_classifyItem [of e known i s it] obtain ms1 where
    1: "outbox (classifyItem e known i s it) = outbox s @ ms1"
       "\<forall>m \<in> set ms1. (\<exists>c. m = SyncProgress (Some c)) \<or> (\<exists>t c u. m = ConversationSkip (item_id it) t c u)"
       "itemUpdateTime e it \<le> numOr0 known (item_id it) \<longrightarrow>
          (\<exists>t c u. ConversationSkip (item_id it) t c u \<in> set ms1)" by blast
  from Cons.IH [of "classifyItem e known i s it"] obtain ms2 where
    2: "outbox (foldl (classifyItem e known i) (classifyItem e known i s it) items)
          = outbox (classifyItem e known i s it) @ ms2"
       "\<forall>m \<in> set ms2. listingMessage m"
       "\<forall>it \<in> set items. itemUpdateTime e it \<le> numOr0 known (item_id it) \<longrightarrow>
          (\<exists>t c u. ConversationSkip (item_id it) t c u \<in> set ms2)" by blast
  have l1: "\<forall>m \<in> set ms1. listingMessage m"
    using 1(2) by (auto simp: listingMessage_def)
  have "outbox (foldl (classifyItem e known i) s (it # items)) = outbox s @ (ms1 @ ms2)"
    using 1(1) 2(1) by simp
  moreover have "\<forall>m \<in> set (ms1 @ ms2). listingMessage m" using l1 2(2) by auto
  moreover have "\<forall>x \<in> set (it # items). itemUpdateTime e x \<le> numOr0 known (item_id x) \<longrightarrow>
          (\<exists>t c u. ConversationSkip (item_id x) t c u \<in> set (ms1 @ ms2))"
    using 1(3) 2(3) by simp blast
  ultimately show ?case by blast
qed

lemma outbox_listPage:
  "\<exists>ms. outbox (listPage e known w pg s) = outbox s @ ms
     \<and> (\<forall>m \<in> set ms. listingMessage m)
     \<and> (\<forall>it \<in> set (p_items pg). itemUpdateTime e it \<le> numOr0 known (item_id it) \<longrightarrow>
          (\<exists>t c u. ConversationSkip (item_id it) t c u \<in> set ms))"
proof -
  let ?s2 = "if stopForTime w (p_pageMinUpdate pg)
             then (openPage (length (p_items pg)) s)\<lparr>didFullInventory := False\<rparr>
             else openPage (length (p_items pg)) s"
  have o: "outbox ?s2 = outbox s" by (simp add: openPage_def)
  have "outbox (listPage e known w pg s)
          = outbox (foldl (classifyItem e known (length (pageStates s))) ?s2 (p_items pg))"
    by (simp add: listPage_def Let_def)
  with outbox_foldl_classifyItem [of e known "length (pageStates s)" ?s2 "p_items pg"] o
  show ?thesis by simp
qed


lemma listLoop_throw:
  "fetchConversationPage e (offset s) (limit s) = None \<Longrightarrow>
   listLoop e known w s = s\<lparr>requests := requests s @ [(offset s, limit s)],
                              thrown := Some ''Failed to fetch conversations''\<rparr>"
  by (subst listLoop.simps) simp

lemma listLoop_empty:
  "fetchConversationPage e (offset s) (limit s) = Some pg \<Longrightarrow> p_items pg = [] \<Longrightarrow>
   listLoop e known w s =
     (if listedCount s = 0
      then s\<lparr>requests := requests s @ [(offset s, limit s)], limit := p_limit pg,
             didFullInventory := False\<rparr>
      else s\<lparr>requests := requests s @ [(offset s, limit s)], limit := p_limit pg\<rparr>)"
  by (subst listLoop.simps) simp

lemma listLoop_ceiling:
  "fetchConversationPage e (offset s) (limit s) = Some pg \<Longrightarrow> p_items pg \<noteq> [] \<Longrightarrow>
   pageCount s \<ge> maxPages \<Longrightarrow>
   listLoop e known w s =
     s\<lparr>requests := requests s @ [(offset s, limit s)], limit := p_limit pg,
       listedCount := listedCount s + length (p_items pg), pageCount := pageCount s + 1,
       didFullInventory := False\<rparr>"
  by (subst listLoop.simps) (simp add: Let_def)

lemma listLoop_page:
  "fetchConversationPage e (offset s) (limit s) = Some pg \<Longrightarrow> p_items pg \<noteq> [] \<Longrightarrow>
   pageCount s < maxPages \<Longrightarrow>
   listLoop e known w s =
     (if \<not> stopForTime w (p_pageMinUpdate pg)
         \<and> (p_hasMore pg \<or> length (p_items pg) \<ge> p_limit pg)
      then listLoop e known w (listPage e known w pg (pageEntered pg s))
      else listPage e known w pg (pageEntered pg s))"
  by (subst listLoop.simps) (simp add: Let_def pageEntered_def)

lemma listLoop_continue:
  "fetchConversationPage e (offset s) (limit s) = Some pg \<Longrightarrow> p_items pg \<noteq> [] \<Longrightarrow>
   pageCount s < maxPages \<Longrightarrow>
   \<not> stopForTime w (p_pageMinUpdate pg)
     \<and> (p_hasMore pg \<or> length (p_items pg) \<ge> p_limit pg) \<Longrightarrow>
   listLoop e known w s = listLoop e known w (listPage e known w pg (pageEntered pg s))"
  using listLoop_page [of e s pg known w] by auto

lemma listLoop_stop:
  "fetchConversationPage e (offset s) (limit s) = Some pg \<Longrightarrow> p_items pg \<noteq> [] \<Longrightarrow>
   pageCount s < maxPages \<Longrightarrow>
   \<not> (\<not> stopForTime w (p_pageMinUpdate pg)
       \<and> (p_hasMore pg \<or> length (p_items pg) \<ge> p_limit pg)) \<Longrightarrow>
   listLoop e known w s = listPage e known w pg (pageEntered pg s)"
  using listLoop_page [of e s pg known w] by auto

lemma pageEntered_fields [simp]:
  "requests (pageEntered pg s) = requests s @ [(offset s, limit s)]"
  "limit (pageEntered pg s) = p_limit pg"
  "offset (pageEntered pg s) = offset s"
  "listedCount (pageEntered pg s) = listedCount s + length (p_items pg)"
  "pageCount (pageEntered pg s) = pageCount s + 1"
  "didFullInventory (pageEntered pg s) = didFullInventory s"
  "thrown (pageEntered pg s) = thrown s"
  "queue (pageEntered pg s) = queue s"
  "outbox (pageEntered pg s) = outbox s"
  "metaMap (pageEntered pg s) = metaMap s"
  "currentIds (pageEntered pg s) = currentIds s"
  "pageStates (pageEntered pg s) = pageStates s"
  "forceFullInventory (pageEntered pg s) = forceFullInventory s"
  "deleteCalls (pageEntered pg s) = deleteCalls s"
  "files (pageEntered pg s) = files s"
  "indexFile (pageEntered pg s) = indexFile s"
  "updatedCount (pageEntered pg s) = updatedCount s"
  "errorCount (pageEntered pg s) = errorCount s"
  by (simp_all add: pageEntered_def)

lemma offset_listPage [simp]:
  "offset (listPage e known w pg s) = offset s + length (p_items pg)"
  by (simp add: listPage_def Let_def)

lemma stopsOnlyAtLast_single [simp]: "stopsOnlyAtLast e w [x]"
  by (simp add: stopsOnlyAtLast_def)

lemma stopsOnlyAtLast_Cons:
  "fetchConversationPage e (fst x) (snd x) = Some pg \<Longrightarrow>
   \<not> stopForTime w (p_pageMinUpdate pg) \<Longrightarrow> stopsOnlyAtLast e w (y # R) \<Longrightarrow>
   stopsOnlyAtLast e w (x # y # R)"
  unfolding stopsOnlyAtLast_def
proof (intro allI impI)
  fix j pg'
  assume a: "fetchConversationPage e (fst x) (snd x) = Some pg"
    "\<not> stopForTime w (p_pageMinUpdate pg)"
    "\<forall>j pg. Suc j < length (y # R)
        \<and> fetchConversationPage e (fst ((y # R) ! j)) (snd ((y # R) ! j)) = Some pg
        \<longrightarrow> \<not> stopForTime w (p_pageMinUpdate pg)"
    and b: "Suc j < length (x # y # R)
        \<and> fetchConversationPage e (fst ((x # y # R) ! j)) (snd ((x # y # R) ! j)) = Some pg'"
  show "\<not> stopForTime w (p_pageMinUpdate pg')"
  proof (cases j)
    case 0
    with a(1,2) b show ?thesis by simp
  next
    case (Suc j')
    with b have "Suc j' < length (y # R)
        \<and> fetchConversationPage e (fst ((y # R) ! j')) (snd ((y # R) ! j')) = Some pg'" by simp
    with a(3) show ?thesis by blast
  qed
qed

lemma listLoop_requests:
  "\<exists>R. requests (listLoop e known w s) = requests s @ (offset s, limit s) # R
       \<and> stopsOnlyAtLast e w ((offset s, limit s) # R)"
proof (induction e known w s rule: listLoop.induct)
  case (1 e known w s)
  show ?case
  proof (cases "fetchConversationPage e (offset s) (limit s)")
    case None
    then show ?thesis by (simp add: listLoop_throw)
  next
    case (Some pg)
    show ?thesis
    proof (cases "p_items pg = []")
      case True
      with Some show ?thesis by (simp add: listLoop_empty)
    next
      case ne: False
      show ?thesis
      proof (cases "pageCount s < maxPages")
        case False
        with Some ne show ?thesis by (simp add: listLoop_ceiling)
      next
        case lt: True
        let ?s3 = "listPage e known w pg (pageEntered pg s)"
        show ?thesis
        proof (cases "\<not> stopForTime w (p_pageMinUpdate pg)
                      \<and> (p_hasMore pg \<or> length (p_items pg) \<ge> p_limit pg)")
          case False
          then have "listLoop e known w s = ?s3"
            using listLoop_stop [OF Some ne lt] by blast
          then show ?thesis by simp
        next
          case True
          then have eq: "listLoop e known w s = listLoop e known w ?s3"
            using listLoop_continue [OF Some ne lt] by blast
          have "\<exists>R. requests (listLoop e known w ?s3) = requests ?s3 @ (offset ?s3, limit ?s3) # R
                \<and> stopsOnlyAtLast e w ((offset ?s3, limit ?s3) # R)"
            using "1.IH" [OF Some refl refl ne refl] lt True
            by (simp add: pageEntered_def maxPages_def)
          then obtain R where R: "requests (listLoop e known w ?s3)
                  = requests ?s3 @ (offset ?s3, limit ?s3) # R"
              "stopsOnlyAtLast e w ((offset ?s3, limit ?s3) # R)" by blast
          have "stopsOnlyAtLast e w ((offset s, limit s) # (offset ?s3, limit ?s3) # R)"
            using stopsOnlyAtLast_Cons [of e "(offset s, limit s)" pg w, OF _ _ R(2)] Some True
            by simp
          moreover have "requests (listLoop e known w s)
                  = requests s @ (offset s, limit s) # (offset ?s3, limit ?s3) # R"
            using eq R(1) by simp
          ultimately show ?thesis by blast
        qed
      qed
    qed
  qed
qed


text \<open>A proof rule for the loop: an invariant of its rounds and a property of its exits.\<close>

lemma listLoop_rule:
  assumes init: "I s"
    and step: "\<And>s pg. I s \<Longrightarrow> fetchConversationPage e (offset s) (limit s) = Some pg \<Longrightarrow>
        p_items pg \<noteq> [] \<Longrightarrow> pageCount s < maxPages \<Longrightarrow>
        I (listPage e known w pg (pageEntered pg s))"
    and throw: "\<And>s. I s \<Longrightarrow> fetchConversationPage e (offset s) (limit s) = None \<Longrightarrow>
        Q (s\<lparr>requests := requests s @ [(offset s, limit s)],
              thrown := Some ''Failed to fetch conversations''\<rparr>)"
    and empty: "\<And>s pg. I s \<Longrightarrow> fetchConversationPage e (offset s) (limit s) = Some pg \<Longrightarrow>
        p_items pg = [] \<Longrightarrow>
        Q (if listedCount s = 0
           then s\<lparr>requests := requests s @ [(offset s, limit s)], limit := p_limit pg,
                  didFullInventory := False\<rparr>
           else s\<lparr>requests := requests s @ [(offset s, limit s)], limit := p_limit pg\<rparr>)"
    and ceiling: "\<And>s pg. I s \<Longrightarrow> fetchConversationPage e (offset s) (limit s) = Some pg \<Longrightarrow>
        p_items pg \<noteq> [] \<Longrightarrow> pageCount s \<ge> maxPages \<Longrightarrow>
        Q ((pageEntered pg s)\<lparr>didFullInventory := False\<rparr>)"
    and last: "\<And>s pg. I s \<Longrightarrow> fetchConversationPage e (offset s) (limit s) = Some pg \<Longrightarrow>
        p_items pg \<noteq> [] \<Longrightarrow> pageCount s < maxPages \<Longrightarrow>
        \<not> (\<not> stopForTime w (p_pageMinUpdate pg)
            \<and> (p_hasMore pg \<or> length (p_items pg) \<ge> p_limit pg)) \<Longrightarrow>
        Q (listPage e known w pg (pageEntered pg s))"
  shows "Q (listLoop e known w s)"
  using init
proof (induction "Suc maxPages - pageCount s" arbitrary: s rule: less_induct)
  case less
  note init = less.prems
  show ?case
  proof (cases "fetchConversationPage e (offset s) (limit s)")
    case None
    from throw [OF init None] show ?thesis
      by (simp only: listLoop_throw [OF None])
  next
    case (Some pg)
    show ?thesis
    proof (cases "p_items pg = []")
      case True
      from empty [OF init Some True] show ?thesis
        by (simp only: listLoop_empty [OF Some True])
    next
      case ne: False
      show ?thesis
      proof (cases "pageCount s < maxPages")
        case False
        then have ge: "pageCount s \<ge> maxPages" by simp
        from ceiling [OF init Some ne ge] show ?thesis
          by (simp add: listLoop_ceiling [OF Some ne ge] pageEntered_def)
      next
        case lt: True
        let ?s3 = "listPage e known w pg (pageEntered pg s)"
        show ?thesis
        proof (cases "\<not> stopForTime w (p_pageMinUpdate pg)
                      \<and> (p_hasMore pg \<or> length (p_items pg) \<ge> p_limit pg)")
          case False
          from last [OF init Some ne lt False] show ?thesis
            by (simp only: listLoop_stop [OF Some ne lt False])
        next
          case True
          have I3: "I ?s3" by (rule step [OF init Some ne lt])
          have m: "Suc maxPages - pageCount ?s3 < Suc maxPages - pageCount s"
            using lt by simp
          have "Q (listLoop e known w ?s3)"
            by (rule less.hyps [OF m I3])
          then show ?thesis by (simp only: listLoop_continue [OF Some ne lt True])
        qed
      qed
    qed
  qed
qed

section \<open>The stopping rule of a partial pass\<close>

lemma foldl_maxTime:
  "(\<forall>v \<in> set vs. v \<le> foldl (\<lambda>maxTime v. if v > maxTime then v else maxTime) a vs)
   \<and> a \<le> foldl (\<lambda>maxTime v. if v > maxTime then v else maxTime) a vs
   \<and> foldl (\<lambda>maxTime v. if v > maxTime then v else maxTime) (a::rat) vs \<in> insert a (set vs)"
proof (induction vs arbitrary: a)
  case Nil
  then show ?case by simp
next
  case (Cons v vs)
  show ?case
  proof (cases "v > a")
    case True
    with Cons.IH [of v] show ?thesis by fastforce
  next
    case False
    with Cons.IH [of a] show ?thesis by fastforce
  qed
qed

lemma getMaxKnownUpdateTime_upper:
  assumes "DAList.lookup known k = Some v"
  shows "v \<le> getMaxKnownUpdateTime known"
proof -
  from assms have "map_of (DAList.impl_of known) k = Some v"
    by (simp only: DAList.lookup.rep_eq)
  then have "(k, v) \<in> set (DAList.impl_of known)" by (rule map_of_SomeD)
  then have "snd (k, v) \<in> snd ` set (DAList.impl_of known)" by (rule imageI)
  then have "v \<in> set (vals known)" by (simp add: vals_def)
  with foldl_maxTime [of "vals known" 0] show ?thesis
    unfolding getMaxKnownUpdateTime_def by blast
qed

lemma getMaxKnownUpdateTime_attained:
  "getMaxKnownUpdateTime known = 0
   \<or> (\<exists>k. DAList.lookup known k = Some (getMaxKnownUpdateTime known))"
proof (cases "getMaxKnownUpdateTime known = 0")
  case True
  then show ?thesis by simp
next
  case False
  from foldl_maxTime [of "vals known" 0]
  have "getMaxKnownUpdateTime known \<in> insert 0 (set (vals known))"
    unfolding getMaxKnownUpdateTime_def by blast
  with False have "getMaxKnownUpdateTime known \<in> snd ` set (DAList.impl_of known)"
    by (simp add: vals_def)
  then obtain p where p: "p \<in> set (DAList.impl_of known)" "getMaxKnownUpdateTime known = snd p"
    by blast
  then have "(fst p, getMaxKnownUpdateTime known) \<in> set (DAList.impl_of known)" by simp
  then have "map_of (DAList.impl_of known) (fst p) = Some (getMaxKnownUpdateTime known)"
    using DAList.impl_of_distinct [of known] by (simp only: map_of_eq_Some_iff)
  then have "DAList.lookup known (fst p) = Some (getMaxKnownUpdateTime known)"
    by (simp only: DAList.lookup.rep_eq)
  then show ?thesis by blast
qed

lemma getMaxKnownUpdateTime_nonneg: "0 \<le> getMaxKnownUpdateTime known"
  using foldl_maxTime [of "vals known" 0] unfolding getMaxKnownUpdateTime_def by blast

lemma foldl_pageMin:
  fixes u :: "'a \<Rightarrow> rat"
  shows "0 < m \<Longrightarrow> \<forall>it \<in> set items. 0 < u it \<Longrightarrow>
   r = foldl (\<lambda>pageMinUpdate it.
            let itemUpdate = u it
            in if pageMinUpdate = 0 \<or> itemUpdate < pageMinUpdate then itemUpdate
               else pageMinUpdate) m items \<Longrightarrow>
   r \<in> insert m (u ` set items) \<and> r \<le> m
   \<and> (\<forall>it \<in> set items. r \<le> u it)"
proof (induction items arbitrary: m)
  case Nil
  then show ?case by simp
next
  case (Cons it items)
  have pos: "0 < u it" using Cons.prems(2) by simp
  have rest: "\<forall>x \<in> set items. 0 < u x" using Cons.prems(2) by simp
  show ?case
  proof (cases "u it < m")
    case True
    have r: "r = foldl (\<lambda>pageMinUpdate it.
            let itemUpdate = u it
            in if pageMinUpdate = 0 \<or> itemUpdate < pageMinUpdate then itemUpdate
               else pageMinUpdate) (u it) items"
      unfolding Cons.prems(3) using True by (simp add: Let_def)
    from Cons.IH [OF pos rest r] True show ?thesis by fastforce
  next
    case False
    have r: "r = foldl (\<lambda>pageMinUpdate it.
            let itemUpdate = u it
            in if pageMinUpdate = 0 \<or> itemUpdate < pageMinUpdate then itemUpdate
               else pageMinUpdate) m items"
      unfolding Cons.prems(3) using False Cons.prems(1) by (simp add: Let_def)
    from Cons.IH [OF Cons.prems(1) rest r] False show ?thesis by fastforce
  qed
qed

lemma pageMinUpdateOf_Min:
  "items \<noteq> [] \<Longrightarrow> \<forall>it \<in> set items. 0 < itemUpdateTime e it \<Longrightarrow>
   pageMinUpdateOf e items = Min (itemUpdateTime e ` set items)"
proof (cases items)
  case Nil
  assume "items \<noteq> []"
  with Nil show ?thesis by simp
next
  case (Cons it rest)
  assume p: "\<forall>it \<in> set items. 0 < itemUpdateTime e it"
  have pos: "0 < itemUpdateTime e it" using p unfolding Cons by simp
  have prest: "\<forall>x \<in> set rest. 0 < itemUpdateTime e x" using p unfolding Cons by simp
  have eq: "pageMinUpdateOf e items = foldl (\<lambda>pageMinUpdate it.
            let itemUpdate = itemUpdateTime e it
            in if pageMinUpdate = 0 \<or> itemUpdate < pageMinUpdate then itemUpdate
               else pageMinUpdate) (itemUpdateTime e it) rest"
    unfolding pageMinUpdateOf_def Cons by (simp add: Let_def)
  from foldl_pageMin [of "itemUpdateTime e it" rest "itemUpdateTime e" "pageMinUpdateOf e items",
      OF pos prest eq]
  have a: "pageMinUpdateOf e items \<in> insert (itemUpdateTime e it) (itemUpdateTime e ` set rest)"
    and b: "pageMinUpdateOf e items \<le> itemUpdateTime e it"
    and c: "\<forall>x \<in> set rest. pageMinUpdateOf e items \<le> itemUpdateTime e x" by blast+
  have mem: "pageMinUpdateOf e items \<in> itemUpdateTime e ` set items"
    using a unfolding Cons by simp
  have low: "\<And>y. y \<in> itemUpdateTime e ` set items \<Longrightarrow> pageMinUpdateOf e items \<le> y"
    using b c unfolding Cons by auto
  show ?thesis
    by (rule Min_eqI [symmetric]) (simp, rule low, assumption, rule mem)
qed

lemma tryLimits_pageMin:
  "tryLimits e offs cands = Some pg \<Longrightarrow> p_pageMinUpdate pg = pageMinUpdateOf e (p_items pg)"
  by (induction cands) (auto simp: pageOf_def Let_def split: option.splits)

lemma fetchConversationPage_pageMin:
  "fetchConversationPage e offs lmt = Some pg \<Longrightarrow>
   p_pageMinUpdate pg = pageMinUpdateOf e (p_items pg)"
  by (simp add: fetchConversationPage_def tryLimits_pageMin)

lemma listing_unfold:
  "listing e opts k0 m0 lf cur idx fs =
     listLoop e (fst (initialKnown k0 m0 idx))
       (if shouldForceFullInventory e opts (fst (initialKnown k0 m0 idx)) lf then None
        else Some (getMaxKnownUpdateTime (fst (initialKnown k0 m0 idx))))
       (initialCs (shouldForceFullInventory e opts (fst (initialKnown k0 m0 idx)) lf)
          (resumeOffsetFor e (shouldForceFullInventory e opts (fst (initialKnown k0 m0 idx)) lf) cur)
          (snd (initialKnown k0 m0 idx)) idx fs)"
  by (simp add: listing_def Let_def split: prod.splits)

lemma requests_listing:
  "stopsOnlyAtLast e
     (if shouldForceFullInventory e opts (fst (initialKnown k0 m0 idx)) lf then None
      else Some (getMaxKnownUpdateTime (fst (initialKnown k0 m0 idx))))
     (requests (listing e opts k0 m0 lf cur idx fs))"
proof -
  let ?s0 = "initialCs (shouldForceFullInventory e opts (fst (initialKnown k0 m0 idx)) lf)
          (resumeOffsetFor e (shouldForceFullInventory e opts (fst (initialKnown k0 m0 idx)) lf) cur)
          (snd (initialKnown k0 m0 idx)) idx fs"
  let ?w = "if shouldForceFullInventory e opts (fst (initialKnown k0 m0 idx)) lf then None
      else Some (getMaxKnownUpdateTime (fst (initialKnown k0 m0 idx)))"
  have r0: "requests ?s0 = []" by (simp add: initialCs_def)
  from listLoop_requests [of e "fst (initialKnown k0 m0 idx)" ?w ?s0]
  obtain R where R: "requests (listLoop e (fst (initialKnown k0 m0 idx)) ?w ?s0)
                       = requests ?s0 @ (offset ?s0, limit ?s0) # R"
     "stopsOnlyAtLast e ?w ((offset ?s0, limit ?s0) # R)" by blast
  have X: "requests (listing e opts k0 m0 lf cur idx fs) = (offset ?s0, limit ?s0) # R"
    unfolding listing_unfold R(1) r0 by simp
  show ?thesis unfolding X by (rule R(2))
qed

text \<open>
  C4, amended. With \<open>W\<close> the maximum update time of the known state: in a partial pass the
  listing loop passes \<open>W\<close> to the stopping rule, every request but the last fetched a page
  that did not meet the rule, and the rule holds of a page exactly when \<open>W\<close> and the
  page's computed minimum \<open>pageMinUpdate\<close> are both non-zero and \<open>pageMinUpdate \<le> W\<close>
  (\<open>pageMinUpdate\<close> is the minimum item time when all item times of the page are
  positive). A full pass passes no watermark and the rule never holds. On every classified
  page the items enqueued for a body fetch are exactly those whose observed time exceeds
  the known value of their id; each other item gets a conversation-skip message.
\<close>

theorem partial_pass_stopping_rule:
  "(\<forall>k v. DAList.lookup (fst (initialKnown k0 m0 idx)) k = Some v \<longrightarrow>
        v \<le> getMaxKnownUpdateTime (fst (initialKnown k0 m0 idx)))
   \<and> (getMaxKnownUpdateTime (fst (initialKnown k0 m0 idx)) = 0
       \<or> (\<exists>k. DAList.lookup (fst (initialKnown k0 m0 idx)) k
                 = Some (getMaxKnownUpdateTime (fst (initialKnown k0 m0 idx)))))
   \<and> listing e opts k0 m0 lf cur idx fs =
       listLoop e (fst (initialKnown k0 m0 idx))
         (if shouldForceFullInventory e opts (fst (initialKnown k0 m0 idx)) lf then None
          else Some (getMaxKnownUpdateTime (fst (initialKnown k0 m0 idx))))
         (initialCs (shouldForceFullInventory e opts (fst (initialKnown k0 m0 idx)) lf)
            (resumeOffsetFor e (shouldForceFullInventory e opts (fst (initialKnown k0 m0 idx)) lf) cur)
            (snd (initialKnown k0 m0 idx)) idx fs)
   \<and> stopsOnlyAtLast e
        (if shouldForceFullInventory e opts (fst (initialKnown k0 m0 idx)) lf then None
         else Some (getMaxKnownUpdateTime (fst (initialKnown k0 m0 idx))))
        (requests (listing e opts k0 m0 lf cur idx fs))
   \<and> (stopForTime (Some W) m \<longleftrightarrow> W \<noteq> 0 \<and> m \<noteq> 0 \<and> m \<le> W)
   \<and> \<not> stopForTime None m
   \<and> (\<forall>offs lmt pg. fetchConversationPage e offs lmt = Some pg \<longrightarrow>
         p_pageMinUpdate pg = pageMinUpdateOf e (p_items pg))
   \<and> (items \<noteq> [] \<and> (\<forall>it \<in> set items. 0 < itemUpdateTime e it) \<longrightarrow>
         pageMinUpdateOf e items = Min (itemUpdateTime e ` set items))
   \<and> queue (listPage e known w pg s) =
        queue s @ map (\<lambda>it. (it, length (pageStates s))) (pendingItems e known (p_items pg))
   \<and> (\<forall>it \<in> set (p_items pg). itemUpdateTime e it \<le> numOr0 known (item_id it) \<longrightarrow>
         (\<exists>t c u. ConversationSkip (item_id it) t c u \<in> set (outbox (listPage e known w pg s))))"
proof -
  have c1: "\<forall>k v. DAList.lookup (fst (initialKnown k0 m0 idx)) k = Some v \<longrightarrow>
        v \<le> getMaxKnownUpdateTime (fst (initialKnown k0 m0 idx))"
    using getMaxKnownUpdateTime_upper by blast
  have c2: "getMaxKnownUpdateTime (fst (initialKnown k0 m0 idx)) = 0
       \<or> (\<exists>k. DAList.lookup (fst (initialKnown k0 m0 idx)) k
                 = Some (getMaxKnownUpdateTime (fst (initialKnown k0 m0 idx))))"
    by (rule getMaxKnownUpdateTime_attained)
  note c3 = listing_unfold [of e opts k0 m0 lf cur idx fs]
  note c4 = requests_listing [of e opts k0 m0 idx lf cur fs]
  have c5: "stopForTime (Some W) m \<longleftrightarrow> W \<noteq> 0 \<and> m \<noteq> 0 \<and> m \<le> W"
    by (simp add: stopForTime_def)
  have c6: "\<not> stopForTime None m" by (simp add: stopForTime_def)
  have c7: "\<forall>offs lmt pg. fetchConversationPage e offs lmt = Some pg \<longrightarrow>
         p_pageMinUpdate pg = pageMinUpdateOf e (p_items pg)"
    using fetchConversationPage_pageMin by blast
  have c8: "items \<noteq> [] \<and> (\<forall>it \<in> set items. 0 < itemUpdateTime e it) \<longrightarrow>
         pageMinUpdateOf e items = Min (itemUpdateTime e ` set items)"
    using pageMinUpdateOf_Min [of items e] by blast
  note c9 = queue_listPage [of e known w pg s]
  from outbox_listPage [of e known w pg s] obtain ms where
    ms: "outbox (listPage e known w pg s) = outbox s @ ms"
      "\<forall>it \<in> set (p_items pg). itemUpdateTime e it \<le> numOr0 known (item_id it) \<longrightarrow>
          (\<exists>t c u. ConversationSkip (item_id it) t c u \<in> set ms)" by blast
  have c10: "\<forall>it \<in> set (p_items pg). itemUpdateTime e it \<le> numOr0 known (item_id it) \<longrightarrow>
         (\<exists>t c u. ConversationSkip (item_id it) t c u \<in> set (outbox (listPage e known w pg s)))"
  proof (intro ballI impI)
    fix it assume "it \<in> set (p_items pg)" "itemUpdateTime e it \<le> numOr0 known (item_id it)"
    with ms(2) obtain t c u where "ConversationSkip (item_id it) t c u \<in> set ms" by blast
    then have "ConversationSkip (item_id it) t c u \<in> set (outbox (listPage e known w pg s))"
      by (simp add: ms(1))
    then show "\<exists>t c u. ConversationSkip (item_id it) t c u \<in> set (outbox (listPage e known w pg s))"
      by blast
  qed
  show ?thesis
    by (intro conjI) (rule c1 c2 c3 c4 c5 c6 c7 c8 c9 c10)+
qed

theorem stopping_rule_counterexample:
  "\<not> shouldForceFullInventory (remoteOf [itemB, itemZ]) demoOpts
        (fst (initialKnown knownB DAList.empty None)) (Some ''T1'')
   \<and> getMaxKnownUpdateTime (fst (initialKnown knownB DAList.empty None)) = 50
   \<and> map_option p_items (fetchConversationPage (remoteOf [itemB, itemZ]) 0 100) = Some [itemB, itemZ]
   \<and> itemUpdateTime (remoteOf [itemB, itemZ]) itemZ = 0
   \<and> requests (listing (remoteOf [itemB, itemZ]) demoOpts knownB DAList.empty (Some ''T1'') None None [])
        = [(0, 100), (2, 100)]"
  by code_simp


section \<open>The completeness gate of a full pass\<close>

lemma listLoop_incomplete_ceiling:
  "pageCount s \<le> maxPages \<Longrightarrow>
   pageCount (listLoop e known w s) > maxPages \<longrightarrow> \<not> didFullInventory (listLoop e known w s)"
  by (rule listLoop_rule [where I = "\<lambda>s. pageCount s \<le> maxPages"]) simp_all

lemma listLoop_incomplete_empty:
  "listedCount (listLoop e known w s) = 0 \<and> thrown (listLoop e known w s) = None
     \<longrightarrow> \<not> didFullInventory (listLoop e known w s)"
  by (rule listLoop_rule [where I = "\<lambda>s. True"]) simp_all

lemma listLoop_deleteCalls: "deleteCalls (listLoop e known w s) = deleteCalls s"
proof -
  have "deleteCalls (listLoop e known w s) = deleteCalls s \<and> True"
    by (rule listLoop_rule [where I = "\<lambda>t. deleteCalls t = deleteCalls s"
          and Q = "\<lambda>t. deleteCalls t = deleteCalls s \<and> True"]) simp_all
  then show ?thesis by simp
qed

lemma listLoop_forceFull: "forceFullInventory (listLoop e known w s) = forceFullInventory s"
proof -
  have "forceFullInventory (listLoop e known w s) = forceFullInventory s \<and> True"
    by (rule listLoop_rule [where I = "\<lambda>t. forceFullInventory t = forceFullInventory s"
          and Q = "\<lambda>t. forceFullInventory t = forceFullInventory s \<and> True"]) simp_all
  then show ?thesis by simp
qed

lemma listLoop_didFull_imp:
  "didFullInventory (listLoop e known w s) \<longrightarrow> didFullInventory s"
  by (rule listLoop_rule [where I = "\<lambda>t. didFullInventory t \<longrightarrow> didFullInventory s"])
     (simp_all add: didFullInventory_listPage)

lemma listingMessage_not_complete: "listingMessage m \<Longrightarrow> \<not> isFullComplete m"
  by (cases m) (simp_all add: listingMessage_def isFullComplete_def)

lemma listLoop_outbox_no_complete:
  assumes "\<forall>m \<in> set (outbox s). \<not> isFullComplete m"
  shows "\<forall>m \<in> set (outbox (listLoop e known w s)). \<not> isFullComplete m"
proof (rule listLoop_rule [where I = "\<lambda>t. \<forall>m \<in> set (outbox t). \<not> isFullComplete m"])
  show "\<forall>m \<in> set (outbox s). \<not> isFullComplete m" by (rule assms)
next
  fix t :: cs and pg
  assume a: "\<forall>m \<in> set (outbox t). \<not> isFullComplete m"
  from outbox_listPage [of e known w pg "pageEntered pg t"] obtain ms where
    ms: "outbox (listPage e known w pg (pageEntered pg t)) = outbox (pageEntered pg t) @ ms"
      "\<forall>m \<in> set ms. listingMessage m" by blast
  have b: "\<forall>m \<in> set (outbox (listPage e known w pg (pageEntered pg t))). \<not> isFullComplete m"
    unfolding ms(1) using a ms(2) listingMessage_not_complete by auto
  show "\<forall>m \<in> set (outbox (listPage e known w pg (pageEntered pg t))). \<not> isFullComplete m"
    by (rule b)
  show "\<forall>m \<in> set (outbox (listPage e known w pg (pageEntered pg t))). \<not> isFullComplete m"
    by (rule b)
qed simp_all

lemma processItem_same [simp]:
  "forceFullInventory (processItem e opts s p) = forceFullInventory s"
  "skippedCount (processItem e opts s p) = skippedCount s"
  "didFullInventory (processItem e opts s p) = didFullInventory s"
  "listedCount (processItem e opts s p) = listedCount s"
  "offset (processItem e opts s p) = offset s"
  "limit (processItem e opts s p) = limit s"
  "pageCount (processItem e opts s p) = pageCount s"
  "currentIds (processItem e opts s p) = currentIds s"
  "queue (processItem e opts s p) = queue s"
  "requests (processItem e opts s p) = requests s"
  "indexFile (processItem e opts s p) = indexFile s"
  "deleteCalls (processItem e opts s p) = deleteCalls s"
  "thrown (processItem e opts s p) = thrown s"
  by (simp_all add: processItem_def Let_def split: prod.splits sum.splits option.splits)

lemma foldl_processItem_same [simp]:
  "forceFullInventory (foldl (processItem e opts) s ps) = forceFullInventory s"
  "skippedCount (foldl (processItem e opts) s ps) = skippedCount s"
  "didFullInventory (foldl (processItem e opts) s ps) = didFullInventory s"
  "listedCount (foldl (processItem e opts) s ps) = listedCount s"
  "offset (foldl (processItem e opts) s ps) = offset s"
  "limit (foldl (processItem e opts) s ps) = limit s"
  "pageCount (foldl (processItem e opts) s ps) = pageCount s"
  "currentIds (foldl (processItem e opts) s ps) = currentIds s"
  "requests (foldl (processItem e opts) s ps) = requests s"
  "indexFile (foldl (processItem e opts) s ps) = indexFile s"
  "deleteCalls (foldl (processItem e opts) s ps) = deleteCalls s"
  "thrown (foldl (processItem e opts) s ps) = thrown s"
  by (induction ps arbitrary: s; simp)+

lemma drainQueue_same [simp]:
  "forceFullInventory (drainQueue e opts s) = forceFullInventory s"
  "skippedCount (drainQueue e opts s) = skippedCount s"
  "didFullInventory (drainQueue e opts s) = didFullInventory s"
  "listedCount (drainQueue e opts s) = listedCount s"
  "pageCount (drainQueue e opts s) = pageCount s"
  "currentIds (drainQueue e opts s) = currentIds s"
  "requests (drainQueue e opts s) = requests s"
  "indexFile (drainQueue e opts s) = indexFile s"
  "deleteCalls (drainQueue e opts s) = deleteCalls s"
  "thrown (drainQueue e opts s) = thrown s"
  "queue (drainQueue e opts s) = []"
  by (simp_all add: drainQueue_def)

lemma outbox_processItem:
  "\<exists>ms. outbox (processItem e opts s p) = outbox s @ ms \<and> (\<forall>m \<in> set ms. \<not> isFullComplete m)"
proof -
  obtain it i where p: "p = (it, i)" by (cases p)
  obtain t m where t: "processItem e opts s p = markPageItemDone i t"
    and o: "outbox t = outbox s @ [m]" and m: "\<not> isFullComplete m"
    by (cases "fetchConversation e (item_id it)";
        cases "writeConversation e opts (projr (fetchConversation e (item_id it)))
                 (files s)";
        cases "snd (writeConversation e opts (projr (fetchConversation e (item_id it)))
                 (files s))")
       (simp_all add: processItem_def p Let_def isFullComplete_def)
  from outbox_markPageItemDone_prefix [of i t] obtain ms where
    ms: "outbox (markPageItemDone i t) = outbox t @ ms"
      "\<forall>m \<in> set ms. \<exists>c. m = SyncProgress (Some c)" by blast
  have "outbox (processItem e opts s p) = outbox s @ (m # ms)"
    unfolding t ms(1) o by simp
  moreover have "\<forall>x \<in> set (m # ms). \<not> isFullComplete x"
    using m ms(2) by (auto simp: isFullComplete_def)
  ultimately show ?thesis by blast
qed

lemma outbox_foldl_processItem:
  "\<exists>ms. outbox (foldl (processItem e opts) s ps) = outbox s @ ms
        \<and> (\<forall>m \<in> set ms. \<not> isFullComplete m)"
proof (induction ps arbitrary: s)
  case Nil
  then show ?case by simp
next
  case (Cons p ps)
  from outbox_processItem [of e opts s p] obtain ms1 where
    1: "outbox (processItem e opts s p) = outbox s @ ms1" "\<forall>m \<in> set ms1. \<not> isFullComplete m"
    by blast
  from Cons.IH [of "processItem e opts s p"] obtain ms2 where
    2: "outbox (foldl (processItem e opts) (processItem e opts s p) ps)
          = outbox (processItem e opts s p) @ ms2" "\<forall>m \<in> set ms2. \<not> isFullComplete m"
    by blast
  have "outbox (foldl (processItem e opts) s (p # ps)) = outbox s @ (ms1 @ ms2)"
    using 1(1) 2(1) by simp
  moreover have "\<forall>m \<in> set (ms1 @ ms2). \<not> isFullComplete m" using 1(2) 2(2) by auto
  ultimately show ?case by blast
qed

lemma outbox_drainQueue_no_complete:
  "\<forall>m \<in> set (outbox s). \<not> isFullComplete m \<Longrightarrow>
   \<forall>m \<in> set (outbox (drainQueue e opts s)). \<not> isFullComplete m"
  using outbox_foldl_processItem [of e opts s "queue s"] by (auto simp: drainQueue_def)

lemma removeOne_same [simp]:
  "forceFullInventory (removeOne e opts s cid) = forceFullInventory s"
  "updatedCount (removeOne e opts s cid) = updatedCount s"
  "skippedCount (removeOne e opts s cid) = skippedCount s"
  "didFullInventory (removeOne e opts s cid) = didFullInventory s"
  "currentIds (removeOne e opts s cid) = currentIds s"
  "outbox (removeOne e opts s cid) = outbox s"
  "indexFile (removeOne e opts s cid) = indexFile s"
  "thrown (removeOne e opts s cid) = thrown s"
  by (simp_all add: removeOne_def Let_def split: prod.splits)

lemma foldl_removeOne_same [simp]:
  "forceFullInventory (foldl (removeOne e opts) s ids) = forceFullInventory s"
  "updatedCount (foldl (removeOne e opts) s ids) = updatedCount s"
  "skippedCount (foldl (removeOne e opts) s ids) = skippedCount s"
  "didFullInventory (foldl (removeOne e opts) s ids) = didFullInventory s"
  "currentIds (foldl (removeOne e opts) s ids) = currentIds s"
  "outbox (foldl (removeOne e opts) s ids) = outbox s"
  "indexFile (foldl (removeOne e opts) s ids) = indexFile s"
  "thrown (foldl (removeOne e opts) s ids) = thrown s"
  by (induction ids arbitrary: s; simp)+

lemma removalPass_same [simp]:
  "forceFullInventory (removalPass e opts s) = forceFullInventory s"
  "updatedCount (removalPass e opts s) = updatedCount s"
  "skippedCount (removalPass e opts s) = skippedCount s"
  "didFullInventory (removalPass e opts s) = didFullInventory s"
  "currentIds (removalPass e opts s) = currentIds s"
  "outbox (removalPass e opts s) = outbox s"
  "indexFile (removalPass e opts s) = indexFile s"
  "thrown (removalPass e opts s) = thrown s"
  by (simp_all add: removalPass_def)

lemma removalPass_skipped: "\<not> didFullInventory s \<Longrightarrow> removalPass e opts s = s"
  by (simp add: removalPass_def)

lemma writeIndex_same [simp]:
  "forceFullInventory (writeIndex e s) = forceFullInventory s"
  "updatedCount (writeIndex e s) = updatedCount s"
  "skippedCount (writeIndex e s) = skippedCount s"
  "errorCount (writeIndex e s) = errorCount s"
  "didFullInventory (writeIndex e s) = didFullInventory s"
  "metaMap (writeIndex e s) = metaMap s"
  "currentIds (writeIndex e s) = currentIds s"
  "outbox (writeIndex e s) = outbox s"
  "files (writeIndex e s) = files s"
  "deleteCalls (writeIndex e s) = deleteCalls s"
  by (simp_all add: writeIndex_def)

lemma onMessage_lastFull:
  "\<not> isFullComplete m \<Longrightarrow>
   lastFullInventoryAt (nextState (onMessage e m run)) = lastFullInventoryAt (nextState run)"
  by (cases m)
     (simp_all add: isFullComplete_def storeConversation_def Let_def split: option.splits prod.splits)

lemma onMessage_lastFull_change:
  "lastFullInventoryAt (nextState (onMessage e m run)) \<noteq> lastFullInventoryAt (nextState run)
   \<Longrightarrow> isFullComplete m \<and> lastFullInventoryAt (nextState (onMessage e m run)) = Some (nowIso e)"
  by (cases m)
     (auto simp: isFullComplete_def storeConversation_def Let_def split: option.splits prod.splits if_splits)

lemma runMessages_lastFull:
  "\<forall>m \<in> set ms. \<not> isFullComplete m \<Longrightarrow>
   lastFullInventoryAt (nextState (runMessages e ms run)) = lastFullInventoryAt (nextState run)"
proof (induction ms arbitrary: run)
  case Nil
  then show ?case by simp
next
  case (Cons m ms)
  then have m: "\<not> isFullComplete m" and rest: "\<forall>m \<in> set ms. \<not> isFullComplete m" by simp_all
  show ?case
    using Cons.IH [OF rest, of "onMessage e m run"] onMessage_lastFull [OF m, of e run]
    by simp
qed


lemma finishSync_full_complete:
  assumes "\<forall>m \<in> set (outbox L). \<not> isFullComplete m"
    and "m \<in> set (outbox (finishSync e opts L))" and "isFullComplete m"
  shows "didFullInventory L \<and> thrown L = None"
proof (cases "thrown L")
  case (Some err)
  then have "outbox (finishSync e opts L) = outbox L @ [SyncError err]"
    by (simp add: finishSync_def)
  with assms show ?thesis by (auto simp: isFullComplete_def)
next
  case None
  let ?s1 = "writeIndex e (removalPass e opts (drainQueue e opts L))"
  have o1: "\<forall>m \<in> set (outbox ?s1). \<not> isFullComplete m"
    using outbox_drainQueue_no_complete [OF assms(1), of e opts] by simp
  have d1: "didFullInventory ?s1 = didFullInventory L" by simp
  show ?thesis
  proof (cases "thrown ?s1")
    case (Some err)
    then have "outbox (finishSync e opts L) = outbox ?s1 @ [SyncError err]"
      using None by (simp add: finishSync_def Let_def)
    with assms(2,3) o1 show ?thesis by (auto simp: isFullComplete_def)
  next
    case n1: None
    then have "outbox (finishSync e opts L) = outbox ?s1 @
                   [SyncComplete (didFullInventory ?s1) (updatedCount ?s1) (skippedCount ?s1)
                      (errorCount ?s1)]"
      using None by (simp add: finishSync_def Let_def)
    with assms(2,3) o1 d1 None show ?thesis by (auto simp: isFullComplete_def)
  qed
qed

lemma finishSync_deleteCalls_incomplete:
  assumes "\<not> didFullInventory L"
  shows "deleteCalls (finishSync e opts L) = deleteCalls L"
proof -
  have r: "removalPass e opts (drainQueue e opts L) = drainQueue e opts L"
    using assms by (simp add: removalPass_skipped)
  show ?thesis
    by (cases "thrown L"; cases "indexWriteFails e")
       (simp_all add: finishSync_def Let_def r writeIndex_def)
qed

lemma outbox_listing_no_complete:
  "\<forall>m \<in> set (outbox (listing e opts k0 m0 lf cur idx fs)). \<not> isFullComplete m"
  unfolding listing_unfold
  by (rule listLoop_outbox_no_complete) (simp add: initialCs_def isFullComplete_def)

lemma deleteCalls_listing: "deleteCalls (listing e opts k0 m0 lf cur idx fs) = []"
  unfolding listing_unfold by (simp add: listLoop_deleteCalls initialCs_def)

text \<open>
  C5. When the listing of a pass ends at the page ceiling (\<open>pageCount > maxPages\<close>) or with
  no item at all (\<open>listedCount = 0\<close>), the pass is not a completed full inventory: the
  removal pass leaves the state as it is, no deletion is attempted, no message of the run
  reports a completed full inventory, and the service worker's \<open>lastFullInventoryAt\<close> after
  the run is the one before it. In any run \<open>lastFullInventoryAt\<close> changes only when a
  sync-complete message reports a completed full inventory, then to the current time, and
  the content script sends that report only when \<open>didFullInventory\<close> still holds at the end.
\<close>

theorem full_pass_completeness_gate:
  assumes L: "L = listing e opts k0 m0 lf cur idx fs"
  shows "(pageCount L > maxPages \<or> (listedCount L = 0 \<and> thrown L = None) \<longrightarrow>
       \<not> didFullInventory L
       \<and> removalPass e opts (drainQueue e opts L) = drainQueue e opts L
       \<and> deleteCalls (finishSync e opts L) = []
       \<and> (\<forall>m \<in> set (outbox (finishSync e opts L)). \<not> isFullComplete m)
       \<and> lastFullInventoryAt (nextState (runMessages e (outbox (finishSync e opts L)) run))
            = lastFullInventoryAt (nextState run))
   \<and> (lastFullInventoryAt (nextState (onMessage e m run)) \<noteq> lastFullInventoryAt (nextState run)
        \<longrightarrow> isFullComplete m
            \<and> lastFullInventoryAt (nextState (onMessage e m run)) = Some (nowIso e))
   \<and> (m \<in> set (outbox (finishSync e opts L)) \<and> isFullComplete m
        \<longrightarrow> didFullInventory L \<and> thrown L = None)"
proof -
  have nc: "\<forall>m \<in> set (outbox L). \<not> isFullComplete m"
    unfolding L by (rule outbox_listing_no_complete)
  have c3: "m \<in> set (outbox (finishSync e opts L)) \<and> isFullComplete m
        \<longrightarrow> didFullInventory L \<and> thrown L = None"
    using finishSync_full_complete [OF nc] by blast
  have c2: "lastFullInventoryAt (nextState (onMessage e m run)) \<noteq> lastFullInventoryAt (nextState run)
        \<longrightarrow> isFullComplete m
            \<and> lastFullInventoryAt (nextState (onMessage e m run)) = Some (nowIso e)"
    using onMessage_lastFull_change [of e m run] by blast
  have c1: "pageCount L > maxPages \<or> (listedCount L = 0 \<and> thrown L = None) \<longrightarrow>
       \<not> didFullInventory L
       \<and> removalPass e opts (drainQueue e opts L) = drainQueue e opts L
       \<and> deleteCalls (finishSync e opts L) = []
       \<and> (\<forall>m \<in> set (outbox (finishSync e opts L)). \<not> isFullComplete m)
       \<and> lastFullInventoryAt (nextState (runMessages e (outbox (finishSync e opts L)) run))
            = lastFullInventoryAt (nextState run)"
  proof
    assume early: "pageCount L > maxPages \<or> (listedCount L = 0 \<and> thrown L = None)"
    have p0: "pageCount (initialCs f r mm idx fs) \<le> maxPages" for f r mm
      by (simp add: initialCs_def)
    have d: "\<not> didFullInventory L"
      using early listLoop_incomplete_ceiling [OF p0] listLoop_incomplete_empty
      unfolding L listing_unfold by blast
    have r: "removalPass e opts (drainQueue e opts L) = drainQueue e opts L"
      using d by (simp add: removalPass_skipped)
    have dc: "deleteCalls (finishSync e opts L) = []"
      using finishSync_deleteCalls_incomplete [OF d, of e opts] deleteCalls_listing
      unfolding L by simp
    have no: "\<forall>m \<in> set (outbox (finishSync e opts L)). \<not> isFullComplete m"
      using finishSync_full_complete [OF nc] d by blast
    have lf: "lastFullInventoryAt (nextState (runMessages e (outbox (finishSync e opts L)) run))
            = lastFullInventoryAt (nextState run)"
      by (rule runMessages_lastFull [OF no])
    show "\<not> didFullInventory L
       \<and> removalPass e opts (drainQueue e opts L) = drainQueue e opts L
       \<and> deleteCalls (finishSync e opts L) = []
       \<and> (\<forall>m \<in> set (outbox (finishSync e opts L)). \<not> isFullComplete m)
       \<and> lastFullInventoryAt (nextState (runMessages e (outbox (finishSync e opts L)) run))
            = lastFullInventoryAt (nextState run)"
      by (intro conjI) (rule d r dc no lf)+
  qed
  show ?thesis by (intro conjI) (rule c1 c2 c3)+
qed

lemma fallbackLimits_cases:
  "fallbackLimits lmt =
     (if lmt = 100 then [100, 50] else if lmt = 50 then [50, 100] else [lmt, 100, 50])"
  by (simp add: fallbackLimits_def)

lemma fetchConversationPage_first:
  "fetchJson e offs lmt = Some data \<Longrightarrow>
   fetchConversationPage e offs lmt = Some (pageOf e offs lmt data)"
  by (auto simp: fetchConversationPage_def fallbackLimits_cases)

lemma endless_page:
  "fetchConversationPage endlessEnv offs lmt
     = Some (pageOf endlessEnv offs lmt \<lparr>d_items = [itemB], d_total = None, d_has_more = Some True\<rparr>)"
  by (rule fetchConversationPage_first) (simp add: endlessEnv_def demoEnv_def)

lemma endless_ceiling:
  "pageCount s \<le> maxPages \<Longrightarrow> pageCount (listLoop endlessEnv known None s) = Suc maxPages"
  by (rule listLoop_rule [where I = "\<lambda>s. pageCount s \<le> maxPages"])
     (auto simp: endless_page pageOf_def Let_def stopForTime_def)

theorem full_pass_completeness_gate_witness:
  "pageCount (listing endlessEnv demoOpts DAList.empty DAList.empty None None None []) = 201
   \<and> forceFullInventory (listing endlessEnv demoOpts DAList.empty DAList.empty None None None [])
   \<and> \<not> didFullInventory (listing endlessEnv demoOpts DAList.empty DAList.empty None None None [])
   \<and> listedCount (listing emptyRemote demoOpts DAList.empty DAList.empty None None None []) = 0
   \<and> forceFullInventory (listing emptyRemote demoOpts DAList.empty DAList.empty None None None [])
   \<and> \<not> didFullInventory (listing emptyRemote demoOpts DAList.empty DAList.empty None None None [])
   \<and> lastFullInventoryAt (nextState (runMessages emptyRemote
        (outbox (finishSync emptyRemote demoOpts
           (listing emptyRemote demoOpts DAList.empty DAList.empty None None None [])))
        (startRun demoState))) = Some ''T1''"
proof -
  let ?L = "listing endlessEnv demoOpts DAList.empty DAList.empty None None None []"
  let ?E = "listing emptyRemote demoOpts DAList.empty DAList.empty None None None []"
  have full: "shouldForceFullInventory e demoOpts (fst (initialKnown DAList.empty DAList.empty None)) None"
    for e
    by (simp add: shouldForceFullInventory_def initialKnown_def readIndex_def keys_def
        DAList.empty.rep_eq)
  have pc: "pageCount ?L = 201"
    unfolding listing_unfold
    by (simp add: endless_ceiling initialCs_def maxPages_def full)
  have ff: "forceFullInventory ?L"
    unfolding listing_unfold by (simp add: listLoop_forceFull initialCs_def full)
  have e1: "listedCount ?E = 0" by code_simp
  have e2: "thrown ?E = None" by code_simp
  have e3: "forceFullInventory ?E" by code_simp
  have lf: "lastFullInventoryAt (nextState (startRun demoState)) = Some ''T1''"
    by (simp add: startRun_def demoState_def)
  from full_pass_completeness_gate [OF refl, of endlessEnv demoOpts DAList.empty DAList.empty None None None "[]"]
    pc
  have d1: "\<not> didFullInventory ?L" by (simp add: maxPages_def)
  from full_pass_completeness_gate [OF refl, of emptyRemote demoOpts DAList.empty DAList.empty None None None "[]"
      "startRun demoState"] e1 e2
  have d2: "\<not> didFullInventory ?E"
    and l2: "lastFullInventoryAt (nextState (runMessages emptyRemote
        (outbox (finishSync emptyRemote demoOpts ?E)) (startRun demoState)))
          = lastFullInventoryAt (nextState (startRun demoState))" by simp_all
  show ?thesis
    using pc ff d1 e1 e3 d2 l2 lf by simp
qed


theorem partial_pass_stopping_rule_witness:
  "requests (listing (remoteOf [itemA, itemB]) demoOpts knownB DAList.empty (Some ''T1'') None None [])
     = [(0, 100)]
   \<and> map_option p_hasMore (fetchConversationPage (remoteOf [itemA, itemB]) 0 100) = Some True
   \<and> stopsOnlyAtLast (remoteOf [itemA, itemB]) (Some 50)
        (requests (listing (remoteOf [itemA, itemB]) demoOpts knownB DAList.empty (Some ''T1'')
           None None []))
   \<and> queue (listing (remoteOf [itemA, itemB]) demoOpts knownB DAList.empty (Some ''T1'') None None [])
        = [(itemA, 0)]
   \<and> ConversationSkip ''B'' ''b'' 1 50
        \<in> set (outbox (listing (remoteOf [itemA, itemB]) demoOpts knownB DAList.empty (Some ''T1'')
             None None []))"
proof -
  let ?E = "remoteOf [itemA, itemB]"
  have p: "\<not> shouldForceFullInventory ?E demoOpts (fst (initialKnown knownB DAList.empty None))
              (Some ''T1'')"
    by code_simp
  have w: "getMaxKnownUpdateTime (fst (initialKnown knownB DAList.empty None)) = 50"
    by code_simp
  have r: "requests (listing ?E demoOpts knownB DAList.empty (Some ''T1'') None None []) = [(0, 100)]"
    by code_simp
  have h: "map_option p_hasMore (fetchConversationPage ?E 0 100) = Some True"
    by code_simp
  have q: "queue (listing ?E demoOpts knownB DAList.empty (Some ''T1'') None None []) = [(itemA, 0)]"
    by code_simp
  have o: "ConversationSkip ''B'' ''b'' 1 50
        \<in> set (outbox (listing ?E demoOpts knownB DAList.empty (Some ''T1'') None None []))"
    by code_simp
  note t = partial_pass_stopping_rule [of knownB DAList.empty None ?E demoOpts "Some ''T1''" None "[]"]
  from t [THEN conjunct2, THEN conjunct2, THEN conjunct2, THEN conjunct1]
  have "stopsOnlyAtLast ?E (Some 50)
        (requests (listing ?E demoOpts knownB DAList.empty (Some ''T1'') None None []))"
    using p w by simp
  with r h q o show ?thesis by simp
qed

section \<open>The removal pass\<close>

lemma keys_iff_has: "k \<in> set (keys m) \<longleftrightarrow> has m k"
proof -
  have "map_of (DAList.impl_of m) k = None \<longleftrightarrow> k \<notin> fst ` set (DAList.impl_of m)"
    by (rule map_of_eq_None_iff)
  then have "k \<in> set (keys m) \<longleftrightarrow> DAList.lookup m k \<noteq> None"
    unfolding keys_def DAList.lookup.rep_eq by simp
  then show ?thesis by (simp add: has_def split: option.splits)
qed

lemma removedIds_iff:
  "k \<in> set (removedIds s) \<longleftrightarrow> has (metaMap s) k \<and> k \<notin> set (currentIds s)"
  by (simp add: removedIds_def keys_iff_has)

lemma deleteConversation_result:
  "deleteConversation e opts cid fs = (fs', failed) \<Longrightarrow>
   failed = deletionFails e opts cid \<and> set fs' \<subseteq> set fs
   \<and> (includeJson opts \<and> \<not> deleteFails e (JsonFile cid) \<longrightarrow> JsonFile cid \<notin> set fs')
   \<and> (includeMarkdown opts \<and> \<not> deletionFails e opts cid \<longrightarrow> MdFile cid \<notin> set fs')"
  by (auto simp: deleteConversation_def deletionFails_def Let_def split: if_splits)

lemma removeOne_effect:
  "DAList.lookup (metaMap (removeOne e opts s cid)) = (DAList.lookup (metaMap s))(cid := None)
   \<and> thrown (removeOne e opts s cid) = thrown s
   \<and> set (files (removeOne e opts s cid)) \<subseteq> set (files s)
   \<and> (deleteRemoved opts \<longrightarrow>
        deleteCalls (removeOne e opts s cid) = deleteCalls s @ [cid]
        \<and> errorCount (removeOne e opts s cid)
            = errorCount s + (if deletionFails e opts cid then 1 else 0)
        \<and> (includeJson opts \<and> \<not> deleteFails e (JsonFile cid)
              \<longrightarrow> JsonFile cid \<notin> set (files (removeOne e opts s cid)))
        \<and> (includeMarkdown opts \<and> \<not> deletionFails e opts cid
              \<longrightarrow> MdFile cid \<notin> set (files (removeOne e opts s cid))))
   \<and> (\<not> deleteRemoved opts \<longrightarrow>
        deleteCalls (removeOne e opts s cid) = deleteCalls s
        \<and> files (removeOne e opts s cid) = files s
        \<and> errorCount (removeOne e opts s cid) = errorCount s)"
proof (cases "deleteRemoved opts")
  case False
  then show ?thesis by (simp add: removeOne_def Let_def)
next
  case True
  obtain fs' failed where d: "deleteConversation e opts cid (files s) = (fs', failed)"
    by (cases "deleteConversation e opts cid (files s)")
  from deleteConversation_result [OF d] d True show ?thesis
    by (simp add: removeOne_def Let_def)
qed

lemma foldl_removeOne_effect:
  "DAList.lookup (metaMap (foldl (removeOne e opts) s ids)) k
     = (if k \<in> set ids then None else DAList.lookup (metaMap s) k)
   \<and> set (files (foldl (removeOne e opts) s ids)) \<subseteq> set (files s)
   \<and> (deleteRemoved opts \<longrightarrow>
        deleteCalls (foldl (removeOne e opts) s ids) = deleteCalls s @ ids
        \<and> errorCount (foldl (removeOne e opts) s ids)
            = errorCount s + length (filter (deletionFails e opts) ids)
        \<and> (k \<in> set ids \<and> includeJson opts \<and> \<not> deleteFails e (JsonFile k)
              \<longrightarrow> JsonFile k \<notin> set (files (foldl (removeOne e opts) s ids)))
        \<and> (k \<in> set ids \<and> includeMarkdown opts \<and> \<not> deletionFails e opts k
              \<longrightarrow> MdFile k \<notin> set (files (foldl (removeOne e opts) s ids))))
   \<and> (\<not> deleteRemoved opts \<longrightarrow>
        deleteCalls (foldl (removeOne e opts) s ids) = deleteCalls s
        \<and> files (foldl (removeOne e opts) s ids) = files s
        \<and> errorCount (foldl (removeOne e opts) s ids) = errorCount s)"
proof (induction ids arbitrary: s)
  case Nil
  then show ?case by simp
next
  case (Cons cid ids)
  let ?s1 = "removeOne e opts s cid"
  note one = removeOne_effect [of e opts s cid]
  note ih = Cons.IH [of ?s1]
  have f: "foldl (removeOne e opts) s (cid # ids) = foldl (removeOne e opts) ?s1 ids" by simp
  have l: "DAList.lookup (metaMap (foldl (removeOne e opts) ?s1 ids)) k
     = (if k \<in> set (cid # ids) then None else DAList.lookup (metaMap s) k)"
    using ih one by (simp add: fun_upd_def)
  have sub: "set (files (foldl (removeOne e opts) ?s1 ids)) \<subseteq> set (files s)"
    using ih one by blast
  have del: "deleteRemoved opts \<longrightarrow>
        deleteCalls (foldl (removeOne e opts) ?s1 ids) = deleteCalls s @ (cid # ids)
        \<and> errorCount (foldl (removeOne e opts) ?s1 ids)
            = errorCount s + length (filter (deletionFails e opts) (cid # ids))
        \<and> (k \<in> set (cid # ids) \<and> includeJson opts \<and> \<not> deleteFails e (JsonFile k)
              \<longrightarrow> JsonFile k \<notin> set (files (foldl (removeOne e opts) ?s1 ids)))
        \<and> (k \<in> set (cid # ids) \<and> includeMarkdown opts \<and> \<not> deletionFails e opts k
              \<longrightarrow> MdFile k \<notin> set (files (foldl (removeOne e opts) ?s1 ids)))"
  proof
    assume dr: "deleteRemoved opts"
    have a: "deleteCalls (foldl (removeOne e opts) ?s1 ids) = deleteCalls s @ (cid # ids)"
      using ih one dr by simp
    have b: "errorCount (foldl (removeOne e opts) ?s1 ids)
            = errorCount s + length (filter (deletionFails e opts) (cid # ids))"
      using ih one dr by simp
    have sub1: "set (files (foldl (removeOne e opts) ?s1 ids)) \<subseteq> set (files ?s1)"
      using ih by blast
    have c: "k \<in> set (cid # ids) \<and> includeJson opts \<and> \<not> deleteFails e (JsonFile k)
              \<longrightarrow> JsonFile k \<notin> set (files (foldl (removeOne e opts) ?s1 ids))"
    proof (cases "k \<in> set ids")
      case True
      with ih dr show ?thesis by blast
    next
      case False
      with one dr sub1 show ?thesis by auto
    qed
    have d: "k \<in> set (cid # ids) \<and> includeMarkdown opts \<and> \<not> deletionFails e opts k
              \<longrightarrow> MdFile k \<notin> set (files (foldl (removeOne e opts) ?s1 ids))"
    proof (cases "k \<in> set ids")
      case True
      with ih dr show ?thesis by blast
    next
      case False
      with one dr sub1 show ?thesis by auto
    qed
    show "deleteCalls (foldl (removeOne e opts) ?s1 ids) = deleteCalls s @ (cid # ids)
        \<and> errorCount (foldl (removeOne e opts) ?s1 ids)
            = errorCount s + length (filter (deletionFails e opts) (cid # ids))
        \<and> (k \<in> set (cid # ids) \<and> includeJson opts \<and> \<not> deleteFails e (JsonFile k)
              \<longrightarrow> JsonFile k \<notin> set (files (foldl (removeOne e opts) ?s1 ids)))
        \<and> (k \<in> set (cid # ids) \<and> includeMarkdown opts \<and> \<not> deletionFails e opts k
              \<longrightarrow> MdFile k \<notin> set (files (foldl (removeOne e opts) ?s1 ids)))"
      by (intro conjI) (rule a b c d)+
  qed
  have nodel: "\<not> deleteRemoved opts \<longrightarrow>
        deleteCalls (foldl (removeOne e opts) ?s1 ids) = deleteCalls s
        \<and> files (foldl (removeOne e opts) ?s1 ids) = files s
        \<and> errorCount (foldl (removeOne e opts) ?s1 ids) = errorCount s"
    using ih one by simp
  show ?case unfolding f by (intro conjI) (rule l sub del nodel)+
qed


theorem removal_counterexample:
  "\<not> deleteRemoved demoOpts
   \<and> has (conversations (st_sync storeABC)) ''C''
   \<and> has (ss_meta (st_sync storeABC)) ''C''
   \<and> forceFullInventory (contentOf (remoteDone [itemA, itemB]) demoOpts storeABC)
   \<and> didFullInventory (contentOf (remoteDone [itemA, itemB]) demoOpts storeABC)
   \<and> currentIds (contentOf (remoteDone [itemA, itemB]) demoOpts storeABC) = [''A'', ''B'']
   \<and> deleteCalls (contentOf (remoteDone [itemA, itemB]) demoOpts storeABC) = []
   \<and> \<not> has (metaMap (contentOf (remoteDone [itemA, itemB]) demoOpts storeABC)) ''C''
   \<and> map_option (\<lambda>st. has (conversations (st_sync st)) ''C'')
        (syncOnce (remoteDone [itemA, itemB]) demoOpts storeABC) = Some False
   \<and> map_option (\<lambda>st. has (ss_meta (st_sync st)) ''C'')
        (syncOnce (remoteDone [itemA, itemB]) demoOpts storeABC) = Some False"
  by code_simp

text \<open>
  C1, amended. On a completed full-inventory pass every id in the metadata map that the
  pass did not observe is removed from the metadata map (and so from the index), whether
  deletion of removed records is enabled or not, and the observed ids keep their entries.
  With \<open>deleteRemoved\<close> enabled \<open>deleteConversation\<close> is called for each removed id, its
  artifacts in the enabled formats are gone afterwards unless their deletion fails, and
  each failing deletion adds one to the error counter without aborting the pass. With
  \<open>deleteRemoved\<close> disabled no deletion is attempted and the artifacts stay. When the
  service worker receives the report of a completed full inventory it prunes every id it
  did not see in the run from the known state, again whatever \<open>deleteRemoved\<close> says.
\<close>

theorem removal_pass_effect:
  assumes full: "didFullInventory s"
  shows "(has (metaMap s) k \<and> k \<notin> set (currentIds s) \<longrightarrow>
            \<not> has (metaMap (removalPass e opts s)) k)
    \<and> (k \<in> set (currentIds s) \<longrightarrow>
          DAList.lookup (metaMap (removalPass e opts s)) k = DAList.lookup (metaMap s) k)
    \<and> thrown (removalPass e opts s) = thrown s
    \<and> (deleteRemoved opts \<longrightarrow>
          deleteCalls (removalPass e opts s) = deleteCalls s @ removedIds s
          \<and> errorCount (removalPass e opts s)
              = errorCount s + length (filter (deletionFails e opts) (removedIds s))
          \<and> (has (metaMap s) k \<and> k \<notin> set (currentIds s) \<and> includeJson opts
                \<and> \<not> deleteFails e (JsonFile k)
               \<longrightarrow> JsonFile k \<notin> set (files (removalPass e opts s)))
          \<and> (has (metaMap s) k \<and> k \<notin> set (currentIds s) \<and> includeMarkdown opts
                \<and> \<not> deletionFails e opts k
               \<longrightarrow> MdFile k \<notin> set (files (removalPass e opts s))))
    \<and> (\<not> deleteRemoved opts \<longrightarrow>
          deleteCalls (removalPass e opts s) = deleteCalls s
          \<and> files (removalPass e opts s) = files s
          \<and> errorCount (removalPass e opts s) = errorCount s)
    \<and> (k \<notin> set (bg_currentIds run) \<longrightarrow>
          \<not> has (conversations (nextState (onMessage e (SyncComplete True u sk er) run))) k
          \<and> \<not> has (ss_meta (nextState (onMessage e (SyncComplete True u sk er) run))) k
          \<and> \<not> has (lastRun (nextState (onMessage e (SyncComplete True u sk er) run))) k)
    \<and> (k \<in> set (bg_currentIds run) \<longrightarrow>
          DAList.lookup (conversations (nextState (onMessage e (SyncComplete True u sk er) run))) k
            = DAList.lookup (conversations (nextState run)) k)"
proof -
  have rp: "removalPass e opts s = foldl (removeOne e opts) s (removedIds s)"
    using full by (simp add: removalPass_def)
  note eff = foldl_removeOne_effect [of e opts s "removedIds s" k]
  have c1: "has (metaMap s) k \<and> k \<notin> set (currentIds s) \<longrightarrow>
            \<not> has (metaMap (removalPass e opts s)) k"
    unfolding rp using eff by (simp add: removedIds_iff has_def)
  have c2: "k \<in> set (currentIds s) \<longrightarrow>
          DAList.lookup (metaMap (removalPass e opts s)) k = DAList.lookup (metaMap s) k"
    unfolding rp using eff by (simp add: removedIds_iff)
  have c3: "thrown (removalPass e opts s) = thrown s" by simp
  have c4: "deleteRemoved opts \<longrightarrow>
          deleteCalls (removalPass e opts s) = deleteCalls s @ removedIds s
          \<and> errorCount (removalPass e opts s)
              = errorCount s + length (filter (deletionFails e opts) (removedIds s))
          \<and> (has (metaMap s) k \<and> k \<notin> set (currentIds s) \<and> includeJson opts
                \<and> \<not> deleteFails e (JsonFile k)
               \<longrightarrow> JsonFile k \<notin> set (files (removalPass e opts s)))
          \<and> (has (metaMap s) k \<and> k \<notin> set (currentIds s) \<and> includeMarkdown opts
                \<and> \<not> deletionFails e opts k
               \<longrightarrow> MdFile k \<notin> set (files (removalPass e opts s)))"
    unfolding rp using eff by (simp add: removedIds_iff)
  have c5: "\<not> deleteRemoved opts \<longrightarrow>
          deleteCalls (removalPass e opts s) = deleteCalls s
          \<and> files (removalPass e opts s) = files s
          \<and> errorCount (removalPass e opts s) = errorCount s"
    unfolding rp using eff by simp
  have c6: "k \<notin> set (bg_currentIds run) \<longrightarrow>
          \<not> has (conversations (nextState (onMessage e (SyncComplete True u sk er) run))) k
          \<and> \<not> has (ss_meta (nextState (onMessage e (SyncComplete True u sk er) run))) k
          \<and> \<not> has (lastRun (nextState (onMessage e (SyncComplete True u sk er) run))) k"
    by (simp add: Let_def has_def lookup_pruneTo)
  have c7: "k \<in> set (bg_currentIds run) \<longrightarrow>
          DAList.lookup (conversations (nextState (onMessage e (SyncComplete True u sk er) run))) k
            = DAList.lookup (conversations (nextState run)) k"
    by (simp add: Let_def lookup_pruneTo)
  show ?thesis by (intro conjI) (rule c1 c2 c3 c4 c5 c6 c7)+
qed

theorem removal_pass_effect_witness:
  "didFullInventory (drainQueue (remoteDone [itemA, itemB]) (demoOpts\<lparr>deleteRemoved := True\<rparr>)
       (listingOf (remoteDone [itemA, itemB]) (demoOpts\<lparr>deleteRemoved := True\<rparr>) storeABC))
   \<and> JsonFile ''C'' \<in> set (st_files storeABC)
   \<and> removedIds (drainQueue (remoteDone [itemA, itemB]) (demoOpts\<lparr>deleteRemoved := True\<rparr>)
       (listingOf (remoteDone [itemA, itemB]) (demoOpts\<lparr>deleteRemoved := True\<rparr>) storeABC)) = [''C'']
   \<and> JsonFile ''C'' \<notin> set (files (removalPass (remoteDone [itemA, itemB])
       (demoOpts\<lparr>deleteRemoved := True\<rparr>)
       (drainQueue (remoteDone [itemA, itemB]) (demoOpts\<lparr>deleteRemoved := True\<rparr>)
         (listingOf (remoteDone [itemA, itemB]) (demoOpts\<lparr>deleteRemoved := True\<rparr>) storeABC))))
   \<and> deleteCalls (removalPass (remoteDone [itemA, itemB])
       (demoOpts\<lparr>deleteRemoved := True\<rparr>)
       (drainQueue (remoteDone [itemA, itemB]) (demoOpts\<lparr>deleteRemoved := True\<rparr>)
         (listingOf (remoteDone [itemA, itemB]) (demoOpts\<lparr>deleteRemoved := True\<rparr>) storeABC)))
       = [''C'']"
proof -
  let ?E = "remoteDone [itemA, itemB]"
  let ?o = "demoOpts\<lparr>deleteRemoved := True\<rparr>"
  let ?s = "drainQueue ?E ?o (listingOf ?E ?o storeABC)"
  have f: "didFullInventory ?s" by code_simp
  have j: "JsonFile ''C'' \<in> set (st_files storeABC)" by code_simp
  have r: "removedIds ?s = [''C'']" by code_simp
  have h: "has (metaMap ?s) ''C''" by code_simp
  have n: "''C'' \<notin> set (currentIds ?s)" by code_simp
  have o: "deleteRemoved ?o" "includeJson ?o" by (simp_all add: demoOpts_def)
  have df: "\<not> deleteFails ?E (JsonFile ''C'')" by (simp add: remoteDone_def demoEnv_def)
  have dc: "deleteCalls ?s = []" by code_simp
  note t = removal_pass_effect [OF f, of "''C''" ?E ?o]
  from t [THEN conjunct2, THEN conjunct2, THEN conjunct2, THEN conjunct1] o
  have "deleteCalls (removalPass ?E ?o ?s) = deleteCalls ?s @ removedIds ?s"
    and "has (metaMap ?s) ''C'' \<and> ''C'' \<notin> set (currentIds ?s) \<and> includeJson ?o
                \<and> \<not> deleteFails ?E (JsonFile ''C'')
               \<longrightarrow> JsonFile ''C'' \<notin> set (files (removalPass ?E ?o ?s))"
    by blast+
  with h n o df dc r f j show ?thesis by simp
qed


section \<open>A failed body fetch\<close>

text \<open>
  C2 at a concrete input. The remote lists A with update time 200 and B with 50; the store
  knows A at 100; the body fetch of A fails in the first run. The first run records the
  error with its message and leaves the watermark of A at 100. The second run, a partial
  pass against the same listing, does not enqueue A: the index written by the first run
  carries the listed time 200 for A, the merge at the start of the run raises the known
  time to it, and A is reported unchanged although its body was never fetched.
\<close>

theorem failed_fetch_not_retried:
  "numOr0 (conversations (st_sync storeAB)) ''A'' = 100
   \<and> outbox (contentOf (remoteDone [itemA, itemB]) demoOpts storeAB)
        = [SyncMode False 0 100, ConversationSkip ''B'' ''b'' 1 50,
           ConversationError ''A'' ''HTTP 500'', SyncComplete False 0 1 1]
   \<and> map_option (\<lambda>st1. DAList.lookup (lastRun (st_sync st1)) ''A'')
        (syncOnce (remoteDone [itemA, itemB]) demoOpts storeAB)
        = Some (Some \<lparr>r_status = StError, r_update_time = 100, r_at = ''T1'',
                        r_error = Some ''HTTP 500''\<rparr>)
   \<and> map_option (\<lambda>st1. numOr0 (conversations (st_sync st1)) ''A'')
        (syncOnce (remoteDone [itemA, itemB]) demoOpts storeAB) = Some 100
   \<and> map_option (\<lambda>st1. forceFullInventory (contentOf (remoteDone [itemA, itemB]) demoOpts st1))
        (syncOnce (remoteDone [itemA, itemB]) demoOpts storeAB) = Some False
   \<and> map_option (\<lambda>st1. queue (listingOf (remoteDone [itemA, itemB]) demoOpts st1))
        (syncOnce (remoteDone [itemA, itemB]) demoOpts storeAB) = Some []
   \<and> map_option (\<lambda>st1. outbox (contentOf (remoteDone [itemA, itemB]) demoOpts st1))
        (syncOnce (remoteDone [itemA, itemB]) demoOpts storeAB)
        = Some [SyncMode False 0 100, ConversationSkip ''A'' ''a'' 1 200,
                ConversationSkip ''B'' ''b'' 1 50, SyncComplete False 0 2 0]"
  by code_simp

section \<open>Two partial passes in succession\<close>

subsection \<open>Reading back the index\<close>

lemma readIndex_foldl:
  "readIndex (Some es) = Some (foldl readIndexStep (DAList.empty, DAList.empty) es)"
proof -
  have "(\<lambda>(convs, metas) entry.
                         if m_id entry = [] then (convs, metas)
                         else (DAList.update (m_id entry) (m_update_time entry) convs,
                               DAList.update (m_id entry) entry metas)) = readIndexStep"
    by (intro ext) (simp add: readIndexStep_def split: prod.splits)
  then show ?thesis by (simp add: readIndex_def)
qed

lemma readIndexStep_pair:
  "indexPair S acc \<Longrightarrow> x \<in> S \<Longrightarrow> indexPair S (readIndexStep acc x)"
proof -
  assume a: "indexPair S acc" and x: "x \<in> S"
  obtain c m where acc: "acc = (c, m)" by (cases acc)
  show ?thesis
  proof (cases "m_id x = []")
    case True
    then show ?thesis using a by (simp add: readIndexStep_def acc)
  next
    case False
    then have r: "readIndexStep acc x
        = (DAList.update (m_id x) (m_update_time x) c, DAList.update (m_id x) x m)"
      by (simp add: readIndexStep_def acc)
    show ?thesis
      unfolding r indexPair_def
      using a x False by (simp add: indexPair_def acc DAList.lookup_update)
  qed
qed

lemma foldl_readIndexStep_pair:
  "indexPair S acc \<Longrightarrow> set es \<subseteq> S \<Longrightarrow> indexPair S (foldl readIndexStep acc es)"
  by (induction es arbitrary: acc) (simp_all add: readIndexStep_pair)

lemma readIndex_pair:
  assumes "readIndex (Some es) = Some (ic, im)"
  shows "DAList.lookup ic k = map_option m_update_time (DAList.lookup im k)"
    and "DAList.lookup im k = Some m \<Longrightarrow> m_id m = k \<and> k \<noteq> [] \<and> m \<in> set es"
proof -
  have "indexPair (set es) (DAList.empty, DAList.empty)" by (simp add: indexPair_def)
  from foldl_readIndexStep_pair [OF this subset_refl] assms
  have p: "indexPair (set es) (ic, im)" by (simp add: readIndex_foldl)
  show "DAList.lookup ic k = map_option m_update_time (DAList.lookup im k)"
    using p by (simp add: indexPair_def)
  show "DAList.lookup im k = Some m \<Longrightarrow> m_id m = k \<and> k \<noteq> [] \<and> m \<in> set es"
    using p by (simp add: indexPair_def)
qed

lemma foldl_readIndexStep_entry:
  "distinct (map m_id es) \<Longrightarrow> x \<in> set es \<Longrightarrow> m_id x \<noteq> [] \<Longrightarrow>
   DAList.lookup (snd (foldl readIndexStep acc es)) (m_id x) = Some x"
proof (induction es arbitrary: x rule: rev_induct)
  case Nil
  then show ?case by simp
next
  case (snoc y es)
  obtain c m where f: "foldl readIndexStep acc es = (c, m)"
    by (cases "foldl readIndexStep acc es")
  have step: "foldl readIndexStep acc (es @ [y]) = readIndexStep (c, m) y"
    by (simp add: f)
  show ?case
  proof (cases "x = y")
    case True
    with snoc.prems(3) show ?thesis unfolding step by (simp add: readIndexStep_def)
  next
    case False
    with snoc.prems have xin: "x \<in> set es" and d: "distinct (map m_id es)"
      and ne: "m_id y \<noteq> m_id x" by auto
    from snoc.IH [OF d xin snoc.prems(3)] have "DAList.lookup m (m_id x) = Some x"
      by (simp add: f)
    then show ?thesis using ne unfolding step
      by (simp add: readIndexStep_def DAList.lookup_update)
  qed
qed

lemma wellKeyed_entries:
  assumes "wellKeyed M"
  shows "map m_id (vals M) = keys M"
proof -
  have "\<forall>p \<in> set (DAList.impl_of M). m_id (snd p) = fst p"
  proof
    fix p assume p: "p \<in> set (DAList.impl_of M)"
    then have "(fst p, snd p) \<in> set (DAList.impl_of M)" by simp
    then have "map_of (DAList.impl_of M) (fst p) = Some (snd p)"
      using DAList.impl_of_distinct [of M] by (simp only: map_of_eq_Some_iff)
    then have "DAList.lookup M (fst p) = Some (snd p)" by (simp only: DAList.lookup.rep_eq)
    with assms show "m_id (snd p) = fst p" unfolding wellKeyed_def by blast
  qed
  then show ?thesis by (simp add: vals_def keys_def)
qed

lemma lookup_in_vals:
  assumes "DAList.lookup M k = Some m"
  shows "m \<in> set (vals M)"
proof -
  from assms have "map_of (DAList.impl_of M) k = Some m" by (simp only: DAList.lookup.rep_eq)
  then have "(k, m) \<in> set (DAList.impl_of M)" by (rule map_of_SomeD)
  then have "snd (k, m) \<in> snd ` set (DAList.impl_of M)" by (rule imageI)
  then show ?thesis by (simp add: vals_def)
qed

text \<open>What \<open>readIndex\<close> returns for the file \<open>writeIndex\<close> wrote.\<close>

lemma readIndex_written:
  assumes wk: "wellKeyed M"
    and r: "readIndex (Some (sort_key f (vals M))) = Some (ic, im)"
    and l: "DAList.lookup M k = Some m" and k: "k \<noteq> []"
  shows "DAList.lookup im k = Some m \<and> DAList.lookup ic k = Some (m_update_time m)"
proof -
  let ?es = "sort_key f (vals M)"
  have dk: "distinct (map m_id (vals M))"
    unfolding wellKeyed_entries [OF wk] keys_def by (rule DAList.impl_of_distinct)
  then have "distinct (vals M)" "inj_on m_id (set (vals M))" by (simp_all add: distinct_map)
  then have d: "distinct (map m_id ?es)" by (simp add: distinct_map)
  have mem: "m \<in> set ?es" using lookup_in_vals [OF l] by simp
  have mk: "m_id m = k" using wk l unfolding wellKeyed_def by blast
  from foldl_readIndexStep_entry [OF d mem, of "(DAList.empty, DAList.empty)"] mk k r
  have a: "DAList.lookup im k = Some m" by (simp add: readIndex_foldl)
  from readIndex_pair(1) [OF r, of k] a show ?thesis by simp
qed


subsection \<open>Invariants of a run over the metadata map\<close>

lemma metaMap_classifyItem:
  "metaMap (classifyItem e known i s it)
     = DAList.update (item_id it) (classifiedMeta e known (metaMap s) it) (metaMap s)"
  by (simp add: classifyItem_def Let_def classifiedMeta_def)

lemma currentIds_classifyItem:
  "set (currentIds (classifyItem e known i s it)) = insert (item_id it) (set (currentIds s))"
  by (auto simp: classifyItem_def Let_def setAdd_def)

lemma setAdd_set [simp]: "set (setAdd x xs) = insert x (set xs)"
  by (auto simp: setAdd_def)

lemma classifiedMeta_fields [simp]:
  "m_id (classifiedMeta e known M it) = item_id it"
  "itemUpdateTime e it \<le> m_update_time (classifiedMeta e known M it)"
  "DAList.lookup M (item_id it) = Some m \<Longrightarrow> m_update_time m \<le> m_update_time (classifiedMeta e known M it)"
  by (simp_all add: classifiedMeta_def)

lemma wellKeyed_update:
  "wellKeyed M \<Longrightarrow> m_id m = k \<Longrightarrow> wellKeyed (DAList.update k m M)"
  by (simp add: wellKeyed_def DAList.lookup_update)

lemma metaFloor_update:
  assumes "metaFloor fl M"
    and "\<And>u. fl k = Some u \<Longrightarrow> u \<le> m_update_time m"
  shows "metaFloor fl (DAList.update k m M)"
  unfolding metaFloor_def
proof (intro allI impI)
  fix k' u assume f: "fl k' = Some u"
  show "\<exists>m'. DAList.lookup (DAList.update k m M) k' = Some m' \<and> u \<le> m_update_time m'"
  proof (cases "k' = k")
    case True
    with f assms(2) show ?thesis by (simp add: DAList.lookup_update)
  next
    case False
    with f assms(1) show ?thesis by (simp add: metaFloor_def DAList.lookup_update)
  qed
qed

lemma classifyItem_runInv:
  assumes inv: "runInv e known tm fl s" and t: "itemUpdateTime e it = tm (item_id it)"
  shows "runInv e known tm fl (classifyItem e known i s it)"
proof -
  let ?M = "metaMap s" and ?k = "item_id it"
  let ?m = "classifiedMeta e known ?M it"
  from inv have wk: "wellKeyed ?M"
    and cur: "\<forall>k \<in> set (currentIds s). \<exists>m. DAList.lookup ?M k = Some m \<and> tm k \<le> m_update_time m"
    and fl: "metaFloor fl ?M"
    and q: "\<forall>p \<in> set (queue s). itemUpdateTime e (fst p) = tm (item_id (fst p))
           \<and> numOr0 known (item_id (fst p)) < tm (item_id (fst p))"
    by (simp_all add: runInv_def)
  have wk': "wellKeyed (DAList.update ?k ?m ?M)"
    by (rule wellKeyed_update [OF wk]) simp
  have cur': "\<forall>k \<in> insert ?k (set (currentIds s)).
      \<exists>m. DAList.lookup (DAList.update ?k ?m ?M) k = Some m \<and> tm k \<le> m_update_time m"
  proof
    fix k assume k: "k \<in> insert ?k (set (currentIds s))"
    show "\<exists>m. DAList.lookup (DAList.update ?k ?m ?M) k = Some m \<and> tm k \<le> m_update_time m"
    proof (cases "k = ?k")
      case True
      have "tm ?k \<le> m_update_time ?m" using classifiedMeta_fields(2) [of e it known ?M] t by simp
      with True show ?thesis by (simp add: DAList.lookup_update)
    next
      case False
      with k cur show ?thesis by (simp add: DAList.lookup_update)
    qed
  qed
  have fl': "metaFloor fl (DAList.update ?k ?m ?M)"
  proof (rule metaFloor_update [OF fl])
    fix u assume "fl ?k = Some u"
    with fl obtain m0 where m0: "DAList.lookup ?M ?k = Some m0" "u \<le> m_update_time m0"
      unfolding metaFloor_def by blast
    from classifiedMeta_fields(3) [OF m0(1), of e known] m0(2)
    show "u \<le> m_update_time ?m" by simp
  qed
  have q': "\<forall>p \<in> set (queue (classifyItem e known i s it)).
           itemUpdateTime e (fst p) = tm (item_id (fst p))
           \<and> numOr0 known (item_id (fst p)) < tm (item_id (fst p))"
    unfolding queue_classifyItem using q t by (auto simp: pendingItems_def)
  show ?thesis
    unfolding runInv_def metaMap_classifyItem currentIds_classifyItem
    by (intro conjI) (rule wk' cur' fl' q')+
qed

lemma foldl_classifyItem_runInv:
  "runInv e known tm fl s \<Longrightarrow> \<forall>it \<in> set items. itemUpdateTime e it = tm (item_id it) \<Longrightarrow>
   runInv e known tm fl (foldl (classifyItem e known i) s items)"
  by (induction items arbitrary: s) (simp_all add: classifyItem_runInv)

lemma runInv_cong:
  "metaMap t = metaMap s \<Longrightarrow> currentIds t = currentIds s \<Longrightarrow> queue t = queue s \<Longrightarrow>
   runInv e known tm fl t = runInv e known tm fl s"
  by (simp add: runInv_def)

lemma listPage_runInv:
  assumes "runInv e known tm fl s" and "\<forall>it \<in> set (p_items pg). itemUpdateTime e it = tm (item_id it)"
  shows "runInv e known tm fl (listPage e known w pg s)"
proof -
  let ?s2 = "if stopForTime w (p_pageMinUpdate pg)
             then (openPage (length (p_items pg)) s)\<lparr>didFullInventory := False\<rparr>
             else openPage (length (p_items pg)) s"
  have "runInv e known tm fl ?s2 = runInv e known tm fl s"
    by (rule runInv_cong) (simp_all add: openPage_def)
  with assms(1) have "runInv e known tm fl ?s2" by simp
  from foldl_classifyItem_runInv [OF this assms(2), of "length (pageStates s)"]
  have "runInv e known tm fl (foldl (classifyItem e known (length (pageStates s))) ?s2 (p_items pg))" .
  moreover have "runInv e known tm fl (listPage e known w pg s)
      = runInv e known tm fl (foldl (classifyItem e known (length (pageStates s))) ?s2 (p_items pg))"
    by (rule runInv_cong) (simp_all add: listPage_def Let_def)
  ultimately show ?thesis by simp
qed

subsection \<open>Body fetches keep the invariant\<close>

lemma metaMap_processItem:
  "metaMap (processItem e opts s (it, i)) = metaMap s
   \<or> (\<exists>m. metaMap (processItem e opts s (it, i)) = DAList.update (item_id it) m (metaMap s)
          \<and> m_id m = item_id it \<and> itemUpdateTime e it \<le> m_update_time m)"
proof (cases "fetchConversation e (item_id it)")
  case (Inl err)
  then have "metaMap (processItem e opts s (it, i)) = metaMap s"
    by (simp add: processItem_def Let_def)
  then show ?thesis by blast
next
  case (Inr conv)
  let ?m = "\<lparr>m_id = item_id it,
             m_title = (if conv_title conv \<noteq> [] then conv_title conv else item_title it),
             m_create_time = orElse (toEpochSeconds e (conv_create_time conv))
                                    (toEpochSeconds e (item_create_time it)),
             m_update_time = max (itemUpdateTime e it) (toEpochSeconds e (conv_update_time conv))\<rparr>"
  have "metaMap (processItem e opts s (it, i)) = DAList.update (item_id it) ?m (metaMap s)"
    using Inr by (simp add: processItem_def Let_def split: prod.splits option.splits)
  moreover have "m_id ?m = item_id it \<and> itemUpdateTime e it \<le> m_update_time ?m" by simp
  ultimately show ?thesis by blast
qed

lemma runInv_update:
  assumes inv: "runInv e known tm fl s"
    and M: "metaMap t = DAList.update k m (metaMap s)"
    and c: "currentIds t = currentIds s" and q: "queue t = queue s"
    and k: "m_id m = k" and t: "tm k \<le> m_update_time m"
    and f: "\<And>u. fl k = Some u \<Longrightarrow> u \<le> m_update_time m"
  shows "runInv e known tm fl t"
proof -
  from inv have wk: "wellKeyed (metaMap s)"
    and cur: "\<forall>k \<in> set (currentIds s). \<exists>m. DAList.lookup (metaMap s) k = Some m \<and> tm k \<le> m_update_time m"
    and fl: "metaFloor fl (metaMap s)"
    and qs: "\<forall>p \<in> set (queue s). itemUpdateTime e (fst p) = tm (item_id (fst p))
           \<and> numOr0 known (item_id (fst p)) < tm (item_id (fst p))"
    by (simp_all add: runInv_def)
  have wk': "wellKeyed (DAList.update k m (metaMap s))"
    by (rule wellKeyed_update [OF wk k])
  have cur': "\<forall>j \<in> set (currentIds s).
      \<exists>m'. DAList.lookup (DAList.update k m (metaMap s)) j = Some m' \<and> tm j \<le> m_update_time m'"
  proof
    fix j assume j: "j \<in> set (currentIds s)"
    show "\<exists>m'. DAList.lookup (DAList.update k m (metaMap s)) j = Some m' \<and> tm j \<le> m_update_time m'"
    proof (cases "j = k")
      case True
      with t show ?thesis by (simp add: DAList.lookup_update)
    next
      case False
      with j cur show ?thesis by (simp add: DAList.lookup_update)
    qed
  qed
  have fl': "metaFloor fl (DAList.update k m (metaMap s))"
    by (rule metaFloor_update [OF fl f])
  show ?thesis
    unfolding runInv_def M c q
    by (intro conjI) (rule wk' cur' fl' qs)+
qed

lemma processItem_runInv:
  assumes inv: "runInv e known tm fl s" and p: "(it, i) \<in> set (queue s)"
    and below: "\<forall>k u. fl k = Some u \<longrightarrow> u \<le> numOr0 known k"
  shows "runInv e known tm fl (processItem e opts s (it, i))"
proof -
  from inv have qs: "\<forall>p \<in> set (queue s). itemUpdateTime e (fst p) = tm (item_id (fst p))
           \<and> numOr0 known (item_id (fst p)) < tm (item_id (fst p))"
    by (simp add: runInv_def)
  from bspec [OF qs p] have t: "itemUpdateTime e it = tm (item_id it)"
    and n: "numOr0 known (item_id it) < tm (item_id it)" by simp_all
  from metaMap_processItem [of e opts s it i] show ?thesis
  proof
    assume "metaMap (processItem e opts s (it, i)) = metaMap s"
    then have "runInv e known tm fl (processItem e opts s (it, i)) = runInv e known tm fl s"
      by (rule runInv_cong) simp_all
    with inv show ?thesis by simp
  next
    assume "\<exists>m. metaMap (processItem e opts s (it, i)) = DAList.update (item_id it) m (metaMap s)
          \<and> m_id m = item_id it \<and> itemUpdateTime e it \<le> m_update_time m"
    then obtain m where M: "metaMap (processItem e opts s (it, i)) = DAList.update (item_id it) m (metaMap s)"
      and k: "m_id m = item_id it" and le: "itemUpdateTime e it \<le> m_update_time m" by blast
    show ?thesis
    proof (rule runInv_update [OF inv M _ _ k])
      show "tm (item_id it) \<le> m_update_time m" using le t by simp
    next
      fix u assume "fl (item_id it) = Some u"
      with below have "u \<le> numOr0 known (item_id it)" by blast
      with n le t show "u \<le> m_update_time m" by simp
    qed simp_all
  qed
qed

lemma foldl_processItem_runInv:
  "runInv e known tm fl s \<Longrightarrow> set ps \<subseteq> set (queue s) \<Longrightarrow>
   \<forall>k u. fl k = Some u \<longrightarrow> u \<le> numOr0 known k \<Longrightarrow>
   runInv e known tm fl (foldl (processItem e opts) s ps)"
proof (induction ps arbitrary: s)
  case Nil
  then show ?case by simp
next
  case (Cons p ps)
  obtain it i where p: "p = (it, i)" by (cases p)
  from Cons.prems(2) p have mem: "(it, i) \<in> set (queue s)" and sub: "set ps \<subseteq> set (queue s)"
    by simp_all
  have 1: "runInv e known tm fl (processItem e opts s (it, i))"
    by (rule processItem_runInv [OF Cons.prems(1) mem Cons.prems(3)])
  have 2: "set ps \<subseteq> set (queue (processItem e opts s (it, i)))" using sub by simp
  from Cons.IH [OF 1 2 Cons.prems(3)] show ?case by (simp add: p)
qed

lemma metaMap_drainQueue:
  "metaMap (drainQueue e opts s) = metaMap (foldl (processItem e opts) s (queue s))"
  by (simp add: drainQueue_def)

lemma drainQueue_runInv:
  assumes "runInv e known tm fl s" and "\<forall>k u. fl k = Some u \<longrightarrow> u \<le> numOr0 known k"
  shows "runInv e known tm fl (drainQueue e opts s)"
proof -
  have "runInv e known tm fl (foldl (processItem e opts) s (queue s))"
    by (rule foldl_processItem_runInv [OF assms(1) subset_refl assms(2)])
  then show ?thesis
    by (simp add: runInv_def metaMap_drainQueue)
qed

subsection \<open>The listing loop keeps the invariant\<close>

lemma tryLimits_items:
  "tryLimits e offs cands = Some pg \<Longrightarrow>
   \<exists>l d. fetchJson e offs l = Some d \<and> p_items pg = d_items d"
proof (induction cands)
  case Nil
  then show ?case by simp
next
  case (Cons c cands)
  show ?case
  proof (cases "fetchJson e offs c")
    case None
    with Cons show ?thesis by simp
  next
    case (Some d)
    with Cons.prems have "pg = pageOf e offs c d" by simp
    then have "p_items pg = d_items d" by (simp add: pageOf_def Let_def)
    with Some show ?thesis by blast
  qed
qed

lemma fetchConversationPage_items:
  "fetchConversationPage e offs lmt = Some pg \<Longrightarrow>
   \<exists>l d. fetchJson e offs l = Some d \<and> p_items pg = d_items d"
  unfolding fetchConversationPage_def by (rule tryLimits_items)

lemma listLoop_runInv:
  assumes inv: "runInv e known tm fl s"
    and rem: "\<forall>offs l d it. fetchJson e offs l = Some d \<and> it \<in> set (d_items d)
                \<longrightarrow> itemUpdateTime e it = tm (item_id it)"
  shows "runInv e known tm fl (listLoop e known w s)"
proof (rule listLoop_rule [where I = "runInv e known tm fl"])
  show "runInv e known tm fl s" by (rule inv)
next
  fix t :: cs and pg
  assume a: "runInv e known tm fl t"
    and f: "fetchConversationPage e (offset t) (limit t) = Some pg"
  from fetchConversationPage_items [OF f] obtain l d where
    d: "fetchJson e (offset t) l = Some d" "p_items pg = d_items d" by blast
  have items: "\<forall>it \<in> set (p_items pg). itemUpdateTime e it = tm (item_id it)"
    using rem d by metis
  have "runInv e known tm fl (pageEntered pg t) = runInv e known tm fl t"
    by (rule runInv_cong) simp_all
  with a have b: "runInv e known tm fl (pageEntered pg t)" by simp
  have c: "runInv e known tm fl (listPage e known w pg (pageEntered pg t))"
    by (rule listPage_runInv [OF b items])
  show "runInv e known tm fl (listPage e known w pg (pageEntered pg t))" by (rule c)
  show "runInv e known tm fl (listPage e known w pg (pageEntered pg t))" by (rule c)
next
  fix t :: cs
  assume a: "runInv e known tm fl t"
  have "runInv e known tm fl (t\<lparr>requests := requests t @ [(offset t, limit t)],
              thrown := Some ''Failed to fetch conversations''\<rparr>) = runInv e known tm fl t"
    by (rule runInv_cong) simp_all
  with a show "runInv e known tm fl (t\<lparr>requests := requests t @ [(offset t, limit t)],
              thrown := Some ''Failed to fetch conversations''\<rparr>)" by simp
next
  fix t :: cs and pg
  assume a: "runInv e known tm fl t"
  let ?r = "if listedCount t = 0
           then t\<lparr>requests := requests t @ [(offset t, limit t)], limit := p_limit pg,
                  didFullInventory := False\<rparr>
           else t\<lparr>requests := requests t @ [(offset t, limit t)], limit := p_limit pg\<rparr>"
  have "runInv e known tm fl ?r = runInv e known tm fl t"
    by (rule runInv_cong) simp_all
  with a show "runInv e known tm fl ?r" by simp
next
  fix t :: cs and pg
  assume a: "runInv e known tm fl t"
  have "runInv e known tm fl ((pageEntered pg t)\<lparr>didFullInventory := False\<rparr>) = runInv e known tm fl t"
    by (rule runInv_cong) simp_all
  with a show "runInv e known tm fl ((pageEntered pg t)\<lparr>didFullInventory := False\<rparr>)" by simp
qed


subsection \<open>The items a listing classifies\<close>

lemma currentIds_foldl_classifyItem:
  "set (currentIds (foldl (classifyItem e known i) s items))
     = set (currentIds s) \<union> item_id ` set items"
  by (induction items arbitrary: s) (simp_all add: currentIds_classifyItem)

lemma currentIds_listPage:
  "set (currentIds (listPage e known w pg s)) = set (currentIds s) \<union> item_id ` set (p_items pg)"
  by (simp add: listPage_def Let_def currentIds_foldl_classifyItem openPage_def)

lemma pendingItems_append [simp]:
  "pendingItems e known (xs @ ys) = pendingItems e known xs @ pendingItems e known ys"
  by (simp add: pendingItems_def)

lemma pendingItems_Nil [simp]: "pendingItems e known [] = []"
  by (simp add: pendingItems_def)

lemma listedAs_same:
  "currentIds r = currentIds s \<Longrightarrow> queue r = queue s \<Longrightarrow> updatedCount r = updatedCount s \<Longrightarrow>
   listedAs e known [] s r"
  by (simp add: listedAs_def)

lemma listedAs_listPage:
  "listedAs e known (p_items pg) s (listPage e known w pg (pageEntered pg s))"
  by (simp add: listedAs_def currentIds_listPage queue_listPage image_Un image_image)

lemma listedAs_trans:
  "listedAs e known xs s t \<Longrightarrow> listedAs e known ys t r \<Longrightarrow> listedAs e known (xs @ ys) s r"
  by (simp add: listedAs_def image_Un Un_assoc)

lemma classified_Suc:
  "fetchConversationPage e offs lmt = Some pg \<Longrightarrow>
   classified e w (Suc n) offs lmt =
     (if p_items pg = [] then []
      else p_items pg @
           (if \<not> stopForTime w (p_pageMinUpdate pg)
               \<and> (p_hasMore pg \<or> length (p_items pg) \<ge> p_limit pg)
            then classified e w n (offs + length (p_items pg)) (p_limit pg)
            else []))"
  by simp

lemma classified_None:
  "fetchConversationPage e offs lmt = None \<Longrightarrow> classified e w n offs lmt = []"
  by (cases n) simp_all

lemma classified_empty:
  "fetchConversationPage e offs lmt = Some pg \<Longrightarrow> p_items pg = [] \<Longrightarrow>
   classified e w n offs lmt = []"
  by (cases n) simp_all

lemma classified_stop:
  "fetchConversationPage e offs lmt = Some pg \<Longrightarrow> p_items pg \<noteq> [] \<Longrightarrow>
   \<not> (\<not> stopForTime w (p_pageMinUpdate pg)
       \<and> (p_hasMore pg \<or> length (p_items pg) \<ge> p_limit pg)) \<Longrightarrow>
   classified e w (Suc n) offs lmt = p_items pg"
  by (auto simp: classified_Suc)

lemma classified_continue:
  "fetchConversationPage e offs lmt = Some pg \<Longrightarrow> p_items pg \<noteq> [] \<Longrightarrow>
   \<not> stopForTime w (p_pageMinUpdate pg)
     \<and> (p_hasMore pg \<or> length (p_items pg) \<ge> p_limit pg) \<Longrightarrow>
   classified e w (Suc n) offs lmt
     = p_items pg @ classified e w n (offs + length (p_items pg)) (p_limit pg)"
  by (simp add: classified_Suc)

declare classified.simps [simp del]

lemma listLoop_classified:
  "n = maxPages - pageCount s \<Longrightarrow>
   listedAs e known (classified e w n (offset s) (limit s)) s (listLoop e known w s)"
proof (induction n arbitrary: s)
  case 0
  then have ge: "pageCount s \<ge> maxPages" by simp
  show ?case
  proof (cases "fetchConversationPage e (offset s) (limit s)")
    case None
    show ?thesis
      unfolding listLoop_throw [OF None] classified_None [OF None]
      by (rule listedAs_same) simp_all
  next
    case (Some pg)
    show ?thesis
    proof (cases "p_items pg = []")
      case True
      show ?thesis
        unfolding listLoop_empty [OF Some True] classified_empty [OF Some True]
        by (rule listedAs_same) simp_all
    next
      case False
      show ?thesis
        unfolding listLoop_ceiling [OF Some False ge] classified.simps(1)
        by (rule listedAs_same) simp_all
    qed
  qed
next
  case (Suc n)
  then have lt: "pageCount s < maxPages" and n: "n = maxPages - Suc (pageCount s)" by simp_all
  show ?case
  proof (cases "fetchConversationPage e (offset s) (limit s)")
    case None
    show ?thesis
      unfolding listLoop_throw [OF None] classified_None [OF None]
      by (rule listedAs_same) simp_all
  next
    case (Some pg)
    show ?thesis
    proof (cases "p_items pg = []")
      case True
      show ?thesis
        unfolding listLoop_empty [OF Some True] classified_empty [OF Some True]
        by (rule listedAs_same) simp_all
    next
      case ne: False
      let ?s3 = "listPage e known w pg (pageEntered pg s)"
      have page: "listedAs e known (p_items pg) s ?s3" by (rule listedAs_listPage)
      show ?thesis
      proof (cases "\<not> stopForTime w (p_pageMinUpdate pg)
                    \<and> (p_hasMore pg \<or> length (p_items pg) \<ge> p_limit pg)")
        case False
        show ?thesis
          unfolding listLoop_stop [OF Some ne lt False] classified_stop [OF Some ne False]
          by (rule page)
      next
        case True
        have pc: "pageCount ?s3 = Suc (pageCount s)" by simp
        have n3: "n = maxPages - pageCount ?s3" unfolding pc by (rule n)
        have o3: "offset ?s3 = offset s + length (p_items pg)" by simp
        have l3: "limit ?s3 = p_limit pg" by simp
        have rest: "listedAs e known (classified e w n (offset s + length (p_items pg)) (p_limit pg))
                      ?s3 (listLoop e known w ?s3)"
          using Suc.IH [OF n3] unfolding o3 l3 .
        show ?thesis
          unfolding listLoop_continue [OF Some ne lt True] classified_continue [OF Some ne True]
          by (rule listedAs_trans [OF page rest])
      qed
    qed
  qed
qed


lemma classified_from_remote:
  "it \<in> set (classified e w n offs lmt) \<Longrightarrow>
   \<exists>offs' l d. fetchJson e offs' l = Some d \<and> it \<in> set (d_items d)"
proof (induction n arbitrary: offs lmt)
  case 0
  then show ?case by (simp add: classified.simps)
next
  case (Suc n)
  from Suc.prems obtain pg where pg: "fetchConversationPage e offs lmt = Some pg"
    by (cases "fetchConversationPage e offs lmt") (simp_all add: classified_None)
  from Suc.prems have "it \<in> set (p_items pg)
      \<or> it \<in> set (classified e w n (offs + length (p_items pg)) (p_limit pg))"
    unfolding classified_Suc [OF pg]
    by (cases "p_items pg = []";
        cases "\<not> stopForTime w (p_pageMinUpdate pg)
               \<and> (p_hasMore pg \<or> length (p_items pg) \<ge> p_limit pg)") simp_all
  then show ?case
  proof
    assume a: "it \<in> set (p_items pg)"
    from fetchConversationPage_items [OF pg] obtain l d where
      "fetchJson e offs l = Some d" "p_items pg = d_items d" by blast
    with a show ?thesis by auto
  next
    assume "it \<in> set (classified e w n (offs + length (p_items pg)) (p_limit pg))"
    then show ?thesis by (rule Suc.IH)
  qed
qed

lemma stopForTime_mono:
  "0 \<le> w1 \<Longrightarrow> w1 \<le> w2 \<Longrightarrow> stopForTime (Some w1) p \<Longrightarrow> stopForTime (Some w2) p"
  by (auto simp: stopForTime_def)

lemma classified_mono:
  assumes "0 \<le> w1" and "w1 \<le> w2"
  shows "set (classified e (Some w2) n offs lmt) \<subseteq> set (classified e (Some w1) n offs lmt)"
proof (induction n arbitrary: offs lmt)
  case 0
  show ?case by (simp add: classified.simps)
next
  case (Suc n)
  show ?case
  proof (cases "fetchConversationPage e offs lmt")
    case None
    show ?thesis unfolding classified_None [OF None] by simp
  next
    case (Some pg)
    let ?more = "p_hasMore pg \<or> length (p_items pg) \<ge> p_limit pg"
    let ?rest = "\<lambda>w. classified e w n (offs + length (p_items pg)) (p_limit pg)"
    show ?thesis
    proof (cases "p_items pg = []")
      case True
      show ?thesis unfolding classified_empty [OF Some True] by simp
    next
      case ne: False
      show ?thesis
      proof (cases "\<not> stopForTime (Some w2) (p_pageMinUpdate pg) \<and> ?more")
        case False
        have "classified e (Some w2) (Suc n) offs lmt = p_items pg"
          by (rule classified_stop [OF Some ne False])
        moreover have "set (p_items pg) \<subseteq> set (classified e (Some w1) (Suc n) offs lmt)"
          unfolding classified_Suc [OF Some] using ne by simp
        ultimately show ?thesis by simp
      next
        case True
        then have n2: "\<not> stopForTime (Some w2) (p_pageMinUpdate pg)" and more: ?more by simp_all
        from n2 stopForTime_mono [OF assms] have n1: "\<not> stopForTime (Some w1) (p_pageMinUpdate pg)"
          by blast
        have 2: "classified e (Some w2) (Suc n) offs lmt = p_items pg @ ?rest (Some w2)"
          by (rule classified_continue [OF Some ne True])
        have 1: "classified e (Some w1) (Suc n) offs lmt = p_items pg @ ?rest (Some w1)"
          by (rule classified_continue [OF Some ne conjI [OF n1 more]])
        have "set (?rest (Some w2)) \<subseteq> set (?rest (Some w1))" by (rule Suc.IH)
        then show ?thesis unfolding 1 2 by auto
      qed
    qed
  qed
qed

lemma toEpochSeconds_cong:
  "parseFloat e2 = parseFloat e1 \<Longrightarrow> toEpochSeconds e2 v = toEpochSeconds e1 v"
  by (cases v) (simp_all add: toEpochSeconds_def)

lemma itemUpdateTime_cong:
  assumes "parseFloat e2 = parseFloat e1"
  shows "itemUpdateTime e2 = itemUpdateTime e1"
  by (rule ext) (simp add: itemUpdateTime_def toEpochSeconds_cong [OF assms])

lemma pageOf_cong:
  assumes "parseFloat e2 = parseFloat e1"
  shows "pageOf e2 offs c d = pageOf e1 offs c d"
  by (simp add: pageOf_def pageMinUpdateOf_def itemUpdateTime_cong [OF assms])

lemma tryLimits_cong:
  assumes "parseFloat e2 = parseFloat e1" and "fetchJson e2 = fetchJson e1"
  shows "tryLimits e2 offs cands = tryLimits e1 offs cands"
  by (induction cands) (simp_all add: pageOf_cong [OF assms(1)] assms(2) split: option.splits)

lemma fetchConversationPage_cong:
  assumes "parseFloat e2 = parseFloat e1" and "fetchJson e2 = fetchJson e1"
  shows "fetchConversationPage e2 offs lmt = fetchConversationPage e1 offs lmt"
  by (simp add: fetchConversationPage_def tryLimits_cong [OF assms])

lemma classified_cong:
  assumes "parseFloat e2 = parseFloat e1" and "fetchJson e2 = fetchJson e1"
  shows "classified e2 w n offs lmt = classified e1 w n offs lmt"
proof (induction n arbitrary: offs lmt)
  case 0
  show ?case by (simp add: classified.simps)
next
  case (Suc n)
  show ?case
    unfolding classified.simps fetchConversationPage_cong [OF assms] Suc.IH ..
qed

end
